theory Spec2Isabelle
  imports Main "HOL-Library.Word" "HOL-Library.AList" "HOL-Library.Sublist"
begin

section \<open>The iptables table reconciler of Felix (\<open>iptables/table.go\<close>)\<close>

text \<open>
  The development embeds \<open>Table\<close> of \<open>iptables/table.go\<close>: the parser of
  \<open>iptables-save\<close> output (\<open>readHashesFrom\<close>), the reload of the dataplane state
  (\<open>loadDataplaneState\<close>), the computation of the \<open>iptables-restore\<close> input
  (\<open>applyUpdates\<close>) and the driver \<open>Apply\<close> with its two timers.

  Go strings and byte slices are \<open>string\<close> (lists of 8-bit characters).  A Go map that is
  ranged over is an association list read through \<open>map_of\<close> and written through
  \<open>AList.update\<close> and \<open>AList.delete\<close>; a Go map that is only indexed is a HOL map.
  A possibly-\<open>nil\<close> slice is a \<open>list option\<close>, \<open>None\<close> being \<open>nil\<close>, because
  \<open>reflect.DeepEqual\<close> tells \<open>nil\<close> from the empty slice.  Logging and the Prometheus
  counters are left out; they influence no control flow.
\<close>

subsection \<open>Lines of \<open>iptables-save\<close> output: \<open>bufio.Scanner\<close>\<close>

datatype error = ErrTooLong | ErrRead | ErrPipe | ErrStart | ErrWait | ErrRestore

text \<open>
  \<open>bufio.NewScanner\<close> splits its input with \<open>bufio.ScanLines\<close>: tokens end at a newline,
  one trailing carriage return is dropped from each token, and a final unterminated line
  is a token when it is not empty.  The scanner's buffer holds at most
  \<open>bufio.MaxScanTokenSize\<close> bytes, so a line of that many bytes before its newline
  stops the scan with \<open>bufio.ErrTooLong\<close>.
\<close>

definition MaxScanTokenSize :: nat where
  "MaxScanTokenSize = 64 * 1024"

definition newline :: char where
  "newline = CHR 0x0A"

primrec rawLines :: "string \<Rightarrow> string list" where
  "rawLines [] = [[]]"
| "rawLines (c # cs) =
     (case rawLines cs of
        [] \<Rightarrow> [[c]]
      | l # ls \<Rightarrow> if c = newline then [] # l # ls else (c # l) # ls)"

definition dropCR :: "string \<Rightarrow> string" where
  "dropCR l = (if l \<noteq> [] \<and> last l = CHR 0x0D then butlast l else l)"

text \<open>The pieces between newlines; the piece after the last newline counts when not empty.\<close>

definition scannedLines :: "string \<Rightarrow> string list" where
  "scannedLines s =
     (let ls = rawLines s in if last ls = [] then butlast ls else ls)"

text \<open>
  The reader handed to \<open>readHashesFrom\<close>: the bytes it delivers, and whether it then
  reports a read error instead of end-of-file.
\<close>

record Reader =
  content :: string
  readFails :: bool

text \<open>
  The lines the loop \<open>for scanner.Scan()\<close> sees and the value of \<open>scanner.Err()\<close>
  after it.  The scan stops at the first over-long line; after a read error the
  scanner still hands out the data it holds.
\<close>

definition scanErr :: "Reader \<Rightarrow> error option" where
  "scanErr r =
     (if \<exists>l \<in> set (scannedLines (content r)). MaxScanTokenSize \<le> length l then Some ErrTooLong
      else if readFails r then Some ErrRead
      else None)"

definition scanTokens :: "Reader \<Rightarrow> string list" where
  "scanTokens r =
     map dropCR (takeWhile (\<lambda>l. length l < MaxScanTokenSize) (scannedLines (content r)))"

subsection \<open>The two fixed regular expressions\<close>

text \<open>
  \<open>\S\<close> of Go's \<open>regexp\<close> is every byte but tab, newline, form feed, carriage return
  and space.  \<open>FindSubmatch\<close> of \<open>^:(\S+)\<close> and of \<open>^-A (\S+)\<close> yields the longest run
  of such bytes after the literal start, and no match when that run is empty.
\<close>

definition nonSpace :: "char \<Rightarrow> bool" where
  "nonSpace c = (c \<notin> set [CHR 0x09, CHR 0x0A, CHR 0x0C, CHR 0x0D, CHR '' ''])"

definition chainCreateRegexp :: "string \<Rightarrow> string option" where
  "chainCreateRegexp line =
     (if prefix '':'' line \<and> takeWhile nonSpace (drop 1 line) \<noteq> []
      then Some (takeWhile nonSpace (drop 1 line)) else None)"

definition appendRegexp :: "string \<Rightarrow> string option" where
  "appendRegexp line =
     (if prefix ''-A '' line \<and> takeWhile nonSpace (drop 3 line) \<noteq> []
      then Some (takeWhile nonSpace (drop 3 line)) else None)"

subsection \<open>Rules, chains and the table\<close>

text \<open>The closed set of actions of \<open>iptables/actions.go\<close>.\<close>

datatype Action =
    GotoAction string
  | JumpAction string
  | ReturnAction
  | DropAction
  | LogAction string
  | AcceptAction
  | DNATAction string "16 word"
  | SNATAction string
  | MasqAction string
  | ClearMarkAction "32 word"
  | SetMarkAction "32 word"
  | SetMaskedMarkAction "32 word" "32 word"
  | NoTrackAction

record Rule =
  Match :: "string list"
  Action :: Action

record Chain =
  Name :: string
  Rules :: "Rule list"

text \<open>
  Modelled from the spec: the capability flags of the feature detector (its source is not
  part of this development); the three flags are the ones \<open>actions.go\<close> and
  \<open>table.go\<close> read.
\<close>

record Features =
  SNATFullyRandom :: bool
  MASQFullyRandom :: bool
  RestoreSupportsLock :: bool

text \<open>
  \<open>time.Duration\<close> is a signed 64-bit count of nanoseconds, compared with the signed
  orders \<open>word_sless\<close> and \<open>word_sle\<close>.  \<open>time.Time\<close> is an instant in nanoseconds;
  its range (hundreds of billions of years) is taken as unbounded.
\<close>

type_synonym Duration = "64 word"
type_synonym Time = int

definition Millisecond :: Duration where
  "Millisecond = 1000000"

definition Hour :: Duration where
  "Hour = 3600000000000"

definition minPostWriteInterval :: Duration where
  "minPostWriteInterval = 50 * Millisecond"

text \<open>\<open>set.Set\<close> of libcalico-go holds each item once; \<open>Add\<close> of a member changes nothing.\<close>

type_synonym StringSet = "string list"

definition setAdd :: "string \<Rightarrow> StringSet \<Rightarrow> StringSet" where
  "setAdd item s = (if item \<in> set s then s else s @ [item])"

definition setContains :: "StringSet \<Rightarrow> string \<Rightarrow> bool" where
  "setContains s item = (item \<in> set s)"

type_synonym Hashes = "(string \<times> string list) list"

record Table =
  TableName :: string
  IPVersion :: "8 word"
  featureDetector :: Features
  chainToInsertedRules :: "string \<rightharpoonup> Rule list"
  dirtyInserts :: StringSet
  chainNameToChain :: "string \<rightharpoonup> Chain"
  dirtyChains :: StringSet
  inSyncWithDataPlane :: bool
  chainToDataplaneHashes :: Hashes
  hashCommentPrefix :: string
  hashCommentRegexp :: "string \<Rightarrow> string option"
  ourChainsRegexp :: "string \<Rightarrow> bool"
  oldInsertRegexp :: "string \<Rightarrow> bool"
  nftablesMode :: bool
  iptablesRestoreCmd :: string
  iptablesSaveCmd :: string
  insertMode :: string
  lastReadTime :: Time
  lastWriteTime :: Time
  initialPostWriteInterval :: Duration
  postWriteInterval :: Duration
  refreshInterval :: Duration
  lockTimeout :: Duration
  lockProbeInterval :: Duration

text \<open>
  The three compiled regular expressions of the table are the functions the code calls on
  them: \<open>hashCommentRegexp.FindSubmatch\<close> (its first capture group, \<open>None\<close> when there
  is no match), \<open>ourChainsRegexp.MatchString\<close> and \<open>oldInsertRegexp.Find\<close> (whether
  there is a match).  The field \<open>featureDetector\<close> holds the detector's current snapshot,
  the value of \<open>GetFeatures()\<close>.
\<close>

subsection \<open>\<open>readHashesFrom\<close>\<close>

text \<open>\<open>hashes[chainName]\<close>: a missing key reads as the \<open>nil\<close> slice.\<close>

definition elems :: "'a list option \<Rightarrow> 'a list" where
  "elems s = (case s of None \<Rightarrow> [] | Some xs \<Rightarrow> xs)"

definition len :: "'a list option \<Rightarrow> nat" where
  "len s = length (elems s)"

text \<open>The body of the loop over the scanned lines.\<close>

definition readLine :: "Table \<Rightarrow> string \<Rightarrow> Hashes \<Rightarrow> Hashes" where
  "readLine t line hashes =
     (case chainCreateRegexp line of
        Some chainName \<Rightarrow> AList.update chainName [] hashes
      | None \<Rightarrow>
          (case appendRegexp line of
             None \<Rightarrow> hashes
           | Some chainName \<Rightarrow>
               (let hash =
                      (case hashCommentRegexp t line of
                         Some h \<Rightarrow> h
                       | None \<Rightarrow> if oldInsertRegexp t line then ''OLD INSERT RULE'' else [])
                in AList.update chainName (elems (map_of hashes chainName) @ [hash]) hashes)))"

definition readHashesFrom :: "Table \<Rightarrow> Reader \<Rightarrow> error + Hashes" where
  "readHashesFrom t r =
     (let hashes = fold (readLine t) (scanTokens r) []
      in case scanErr r of Some err \<Rightarrow> Inl err | None \<Rightarrow> Inr hashes)"

subsection \<open>What the save format means, in the words of the specification\<close>

text \<open>
  A line beginning with \<open>:<chain>\<close> declares the chain and establishes an empty
  fingerprint list for it; a line beginning with \<open>-A <chain>\<close> is a rule of the chain;
  every other line is ignored.  The fingerprint of a rule line is the capture of the
  comment pattern, else the sentinel when the legacy pattern matches, else empty.
\<close>

definition sentinel :: string where
  "sentinel = ''OLD INSERT RULE''"

definition declares :: "string \<Rightarrow> string \<Rightarrow> bool" where
  "declares chain line = (chainCreateRegexp line = Some chain)"

definition ruleOf :: "string \<Rightarrow> string \<Rightarrow> bool" where
  "ruleOf chain line = (appendRegexp line = Some chain)"

definition fingerprintOf :: "Table \<Rightarrow> string \<Rightarrow> string" where
  "fingerprintOf t line =
     (case hashCommentRegexp t line of
        Some h \<Rightarrow> h
      | None \<Rightarrow> if oldInsertRegexp t line then sentinel else [])"

definition sinceDeclared :: "string \<Rightarrow> string list \<Rightarrow> string list" where
  "sinceDeclared chain ls = rev (takeWhile (\<lambda>l. \<not> declares chain l) (rev ls))"

definition specHashes :: "Table \<Rightarrow> string list \<Rightarrow> string \<Rightarrow> string list option" where
  "specHashes t ls chain =
     (if list_ex (\<lambda>l. declares chain l \<or> ruleOf chain l) ls
      then Some (map (fingerprintOf t) (filter (ruleOf chain) (sinceDeclared chain ls)))
      else None)"

subsection \<open>The world outside the table\<close>

text \<open>
  Everything \<open>table.go\<close> reaches through its shims is an oracle indexed by the number of
  calls made so far: the clock (\<open>timeNow\<close>), the runs of the save command, the runs of
  the restore command, what the feature detector finds when it is refreshed, and the
  order in which a \<open>set.Set\<close> is iterated (Go ranges over a map in an unspecified order
  that may differ from one loop to the next).  \<open>restoreLog\<close> records the input of every
  restore run, accepted or not.
\<close>

datatype Line =
    ForwardReference string
  | RenderReplace Rule string nat string Features
  | RenderAppend Rule string string Features
  | RenderInsert Rule string string Features
  | DeleteRule string nat
  | DeleteChain string

text \<open>
  A line of restore input is kept as the call that produces it: \<open>ForwardReference c\<close> is
  \<open>buf.WriteForwardReference(c)\<close>; \<open>RenderReplace r c n frag f\<close>, \<open>RenderAppend r c frag f\<close>
  and \<open>RenderInsert r c frag f\<close> are the results of the rendering methods of rule \<open>r\<close>
  (defined outside \<open>table.go\<close>); \<open>DeleteRule c n\<close> is \<open>deleteRule(c, n)\<close>, the text
  \<open>-D c n\<close>; \<open>DeleteChain c\<close> is the text \<open>--delete-chain c\<close>.
\<close>

type_synonym RestoreInput = "(string \<times> Line list) list"

record SaveRun =
  pipeFails :: bool
  startFails :: bool
  stdout :: Reader
  killFails :: bool
  waitFails :: bool

record World =
  nowReadings :: "nat \<Rightarrow> Time"
  nowCalls :: nat
  saveRuns :: "nat \<Rightarrow> SaveRun"
  saveCalls :: nat
  restoreRuns :: "nat \<Rightarrow> bool"
  restoreLog :: "RestoreInput list"
  detections :: "nat \<Rightarrow> Features"
  refreshCalls :: nat
  iterSeeds :: "nat \<Rightarrow> nat list"
  iterCalls :: nat

datatype panic =
    SaveFailedAfterRetries
  | KillFailed
  | RestoreFailedAfterRetries
  | UnknownInsertMode
  | NoIptablesCommand
  | InvalidPattern

definition timeNow :: "World \<Rightarrow> Time \<times> World" where
  "timeNow w = (nowReadings w (nowCalls w), w\<lparr>nowCalls := Suc (nowCalls w)\<rparr>)"

text \<open>
  An iteration order: the seed picks, one after the other, which of the remaining items
  comes next; when the seed runs out the rest follows as stored.  Every order of the
  items arises from some seed.
\<close>

primrec pickOrder :: "nat list \<Rightarrow> 'a list \<Rightarrow> 'a list" where
  "pickOrder [] xs = xs"
| "pickOrder (k # ks) xs =
     (if xs = [] then []
      else (let i = k mod length xs
            in xs ! i # pickOrder ks (take i xs @ drop (Suc i) xs)))"

definition iterOrder :: "World \<Rightarrow> StringSet \<Rightarrow> string list \<times> World" where
  "iterOrder w s =
     (pickOrder (iterSeeds w (iterCalls w)) s, w\<lparr>iterCalls := Suc (iterCalls w)\<rparr>)"

subsection \<open>The restore-input builder\<close>

text \<open>
  Modelled from the spec: \<open>RestoreInputBuilder\<close> (its source is not part of this
  development).  It accumulates the lines of one or more transactions, each scoped by
  a start/end call naming the table; a transaction with no line is discarded when it
  ends; the content is extracted once, with the buffer reset.  \<open>written\<close> holds the
  finished transactions, \<open>current\<close> the open one.
\<close>

record RestoreInputBuilder =
  written :: RestoreInput
  current :: "(string \<times> Line list) option"

definition Reset :: RestoreInputBuilder where
  "Reset = \<lparr>written = [], current = None\<rparr>"

definition StartTransaction :: "string \<Rightarrow> RestoreInputBuilder \<Rightarrow> RestoreInputBuilder" where
  "StartTransaction tableName b = b\<lparr>current := Some (tableName, [])\<rparr>"

definition EndTransaction :: "RestoreInputBuilder \<Rightarrow> RestoreInputBuilder" where
  "EndTransaction b =
     (case current b of
        None \<Rightarrow> b
      | Some (tableName, ls) \<Rightarrow>
          \<lparr>written = (if ls = [] then written b else written b @ [(tableName, ls)]),
           current = None\<rparr>)"

definition WriteLine :: "Line \<Rightarrow> RestoreInputBuilder \<Rightarrow> RestoreInputBuilder" where
  "WriteLine line b =
     (case current b of
        None \<Rightarrow> b
      | Some (tableName, ls) \<Rightarrow> b\<lparr>current := Some (tableName, ls @ [line])\<rparr>)"

definition WriteForwardReference :: "string \<Rightarrow> RestoreInputBuilder \<Rightarrow> RestoreInputBuilder" where
  "WriteForwardReference chainName b = WriteLine (ForwardReference chainName) b"

definition Empty :: "RestoreInputBuilder \<Rightarrow> bool" where
  "Empty b = (written b = [] \<and> (case current b of None \<Rightarrow> True | Some (n, ls) \<Rightarrow> ls = []))"

definition GetBytesAndReset :: "RestoreInputBuilder \<Rightarrow> RestoreInput \<times> RestoreInputBuilder" where
  "GetBytesAndReset b = (written b, Reset)"

subsection \<open>Rule hashes\<close>

text \<open>
  Modelled from the spec: \<open>Chain.RuleHashes\<close> (defined outside \<open>table.go\<close>) computes the
  ordered list of fingerprints of a chain, one per rule, given the capability flags; on
  a \<open>nil\<close> chain it yields the \<open>nil\<close> slice.  The fingerprint function itself is the
  parameter \<open>fp\<close>: \<open>fp features name rules i\<close> is the fingerprint of position \<open>i\<close> of
  the chain called \<open>name\<close> with the rules \<open>rules\<close>.  The spec makes it a function of
  the chain name, the index and the rule at that index; nothing below depends on that.
\<close>

type_synonym Fingerprint = "Features \<Rightarrow> string \<Rightarrow> Rule list \<Rightarrow> nat \<Rightarrow> string"

definition RuleHashes :: "Fingerprint \<Rightarrow> Features \<Rightarrow> Chain \<Rightarrow> string list" where
  "RuleHashes fp features c =
     map (fp features (Name c) (Rules c)) [0..<length (Rules c)]"

definition RuleHashesOf :: "Fingerprint \<Rightarrow> Features \<Rightarrow> Chain option \<Rightarrow> string list option" where
  "RuleHashesOf fp features c = map_option (RuleHashes fp features) c"

definition calculateRuleInsertHashes ::
  "Fingerprint \<Rightarrow> string \<Rightarrow> Rule list \<Rightarrow> Features \<Rightarrow> string list" where
  "calculateRuleInsertHashes fp chainName rules features =
     RuleHashes fp features \<lparr>Name = chainName, Rules = rules\<rparr>"

definition numEmptyStrings :: "string list option \<Rightarrow> nat" where
  "numEmptyStrings strs = fold (\<lambda>s count. if s = [] then count + 1 else count) (elems strs) 0"

definition insertedRules :: "Table \<Rightarrow> string \<Rightarrow> Rule list" where
  "insertedRules t chainName = elems (chainToInsertedRules t chainName)"

definition expectedHashesForInsertChain ::
  "Fingerprint \<Rightarrow> Table \<Rightarrow> string \<Rightarrow> nat \<Rightarrow> string list \<times> string list" where
  "expectedHashesForInsertChain fp t chainName numNonCalicoRules =
     (let rules = insertedRules t chainName;
          allHashes = replicate (length rules + numNonCalicoRules) [];
          features = featureDetector t;
          ourHashes = calculateRuleInsertHashes fp chainName rules features;
          offset = (if insertMode t = ''append'' then numNonCalicoRules else 0)
      in (fold (\<lambda>i all. all[i + offset := ourHashes ! i]) [0..<length ourHashes] allHashes,
          ourHashes))"

definition commentFrag :: "Table \<Rightarrow> string \<Rightarrow> string" where
  "commentFrag t hash =
     ''-m comment --comment '' @ [CHR 0x22] @ hashCommentPrefix t @ hash @ [CHR 0x22]"

subsection \<open>\<open>applyUpdates\<close>\<close>

text \<open>
  First pass over the dirty chains: forward references.  In nftables mode a chain whose
  hashes already equal its non-empty cached hashes leaves the dirty set here
  (\<open>set.RemoveItem\<close>); every other dirty chain is flushed.
\<close>

definition flushPass ::
  "Fingerprint \<Rightarrow> Table \<Rightarrow> string \<Rightarrow> StringSet \<times> RestoreInputBuilder
     \<Rightarrow> StringSet \<times> RestoreInputBuilder" where
  "flushPass fp t chainName = (\<lambda>(dirty, buf).
     if nftablesMode t then
       (let chain = chainNameToChain t chainName;
            currentHashes = RuleHashesOf fp (featureDetector t) chain;
            previousHashes = map_of (chainToDataplaneHashes t) chainName
        in if 0 < len previousHashes \<and> currentHashes = previousHashes
           then (removeAll chainName dirty, buf)
           else (dirty, WriteForwardReference chainName buf))
     else if chainNameToChain t chainName = None
       then (dirty, WriteForwardReference chainName buf)
     else if map_of (chainToDataplaneHashes t) chainName = None
       then (dirty, WriteForwardReference chainName buf)
     else (dirty, buf))"

text \<open>
  Second pass: the rule changes of a chain, position by position.  \<open>ruleDelta\<close> is the
  body of the loop \<open>for i := 0; i < len(previousHashes) || i < len(currentHashes); i++\<close>;
  \<open>None\<close> is its \<open>continue\<close>.
\<close>

definition ruleDelta ::
  "Table \<Rightarrow> Chain \<Rightarrow> string \<Rightarrow> string list option \<Rightarrow> string list \<Rightarrow> nat \<Rightarrow> Line option" where
  "ruleDelta t chain chainName previousHashes currentHashes i =
     (if i < len previousHashes \<and> i < length currentHashes then
        (if elems previousHashes ! i = currentHashes ! i then None
         else Some (RenderReplace (Rules chain ! i) chainName (i + 1)
                      (commentFrag t (currentHashes ! i)) (featureDetector t)))
      else if i < len previousHashes then
        Some (DeleteRule chainName (length currentHashes + 1))
      else
        Some (RenderAppend (Rules chain ! i) chainName
                (commentFrag t (currentHashes ! i)) (featureDetector t)))"

type_synonym NewHashes = "(string \<times> string list option) list"

definition updatePass ::
  "Fingerprint \<Rightarrow> Table \<Rightarrow> string \<Rightarrow> NewHashes \<times> RestoreInputBuilder
     \<Rightarrow> NewHashes \<times> RestoreInputBuilder" where
  "updatePass fp t chainName = (\<lambda>(newHashes, buf).
     case chainNameToChain t chainName of
       None \<Rightarrow> (newHashes, buf)
     | Some chain \<Rightarrow>
         (let previousHashes =
                (if nftablesMode t then None
                 else map_of (chainToDataplaneHashes t) chainName);
              currentHashes = RuleHashes fp (featureDetector t) chain
          in (AList.update chainName (Some currentHashes) newHashes,
              fold WriteLine
                (List.map_filter (ruleDelta t chain chainName previousHashes currentHashes)
                   [0..<max (len previousHashes) (length currentHashes)])
                buf)))"

text \<open>
  Third pass, over the dirty inserts: when the chain is out of sync, delete every tracked
  rule from the last position down, then render the inserts again, in reverse for
  insert mode.
\<close>

definition insertPass ::
  "Fingerprint \<Rightarrow> Table \<Rightarrow> string \<Rightarrow> NewHashes \<times> RestoreInputBuilder
     \<Rightarrow> NewHashes \<times> RestoreInputBuilder" where
  "insertPass fp t chainName = (\<lambda>(newHashes, buf).
     let previousHashes = map_of (chainToDataplaneHashes t) chainName;
         (newChainHashes, newRuleHashes) =
            expectedHashesForInsertChain fp t chainName (numEmptyStrings previousHashes)
     in if Some newChainHashes = previousHashes then (newHashes, buf)
        else
          (let deletions =
                 map (\<lambda>i. DeleteRule chainName (i + 1))
                   (filter (\<lambda>i. elems previousHashes ! i \<noteq> []) (rev [0..<len previousHashes]));
               rules = insertedRules t chainName;
               renderings =
                 (if insertMode t = ''insert''
                  then map (\<lambda>i. RenderInsert (rules ! i) chainName
                                   (commentFrag t (newRuleHashes ! i)) (featureDetector t))
                         (rev [0..<length rules])
                  else map (\<lambda>i. RenderAppend (rules ! i) chainName
                                   (commentFrag t (newRuleHashes ! i)) (featureDetector t))
                         [0..<length rules])
           in (AList.update chainName (Some newChainHashes) newHashes,
               fold WriteLine (deletions @ renderings) buf)))"

text \<open>The nftables-only pass that flushes the chains about to be deleted.\<close>

definition deleteRefPass :: "Table \<Rightarrow> string \<Rightarrow> RestoreInputBuilder \<Rightarrow> RestoreInputBuilder" where
  "deleteRefPass t chainName buf =
     (if chainNameToChain t chainName = None then WriteForwardReference chainName buf
      else buf)"

text \<open>Last pass: the deletions of the dirty chains that are no longer desired.\<close>

definition deletePass ::
  "Table \<Rightarrow> string \<Rightarrow> NewHashes \<times> RestoreInputBuilder \<Rightarrow> NewHashes \<times> RestoreInputBuilder" where
  "deletePass t chainName = (\<lambda>(newHashes, buf).
     if chainNameToChain t chainName = None
     then (AList.update chainName None newHashes, WriteLine (DeleteChain chainName) buf)
     else (newHashes, buf))"

text \<open>Storing the updates: a \<open>nil\<close> list removes the entry of the chain.\<close>

definition storeHashes :: "string \<times> string list option \<Rightarrow> Hashes \<Rightarrow> Hashes" where
  "storeHashes = (\<lambda>(chainName, hashes) dp.
     case hashes of
       None \<Rightarrow> AList.delete chainName dp
     | Some hs \<Rightarrow> AList.update chainName hs dp)"

definition clearDirty :: "NewHashes \<Rightarrow> Table \<Rightarrow> Table" where
  "clearDirty newHashes t =
     t\<lparr>dirtyChains := [], dirtyInserts := [],
       chainToDataplaneHashes := fold storeHashes newHashes (chainToDataplaneHashes t)\<rparr>"

text \<open>
  The restore input that \<open>applyUpdates\<close> builds, with the dirty chains left after the
  first pass and the new hashes: everything up to \<open>buf.EndTransaction()\<close>.  The buffer
  is reset on entry, so it is a local value here.
\<close>

definition buildInput ::
  "Fingerprint \<Rightarrow> Table \<times> World \<Rightarrow> (StringSet \<times> NewHashes \<times> RestoreInputBuilder) \<times> World" where
  "buildInput fp = (\<lambda>(t, w).
     let buf0 = StartTransaction (TableName t) Reset;
         (order1, w1) = iterOrder w (dirtyChains t);
         (dirty, buf1) = fold (flushPass fp t) order1 (dirtyChains t, buf0);
         (order2, w2) = iterOrder w1 dirty;
         (newHashes2, buf2) = fold (updatePass fp t) order2 ([], buf1);
         (order3, w3) = iterOrder w2 (dirtyInserts t);
         (newHashes3, buf3) = fold (insertPass fp t) order3 (newHashes2, buf2);
         (buf4, w4) =
            (if nftablesMode t
             then (let (order4, w') = iterOrder w3 dirty
                   in (fold (deleteRefPass t) order4
                         (StartTransaction (TableName t) (EndTransaction buf3)), w'))
             else (buf3, w3));
         (order5, w5) = iterOrder w4 dirty;
         (newHashes5, buf5) = fold (deletePass t) order5 (newHashes3, buf4)
     in ((dirty, newHashes5, EndTransaction buf5), w5))"

definition applyUpdates ::
  "Fingerprint \<Rightarrow> Table \<times> World \<Rightarrow> error option \<times> Table \<times> World" where
  "applyUpdates fp = (\<lambda>(t, w).
     let ((dirty, newHashes, buf), w1) = buildInput fp (t, w);
         t1 = t\<lparr>dirtyChains := dirty\<rparr>
     in if Empty buf then (None, clearDirty newHashes t1, w1)
        else
          (let (inputBytes, buf') = GetBytesAndReset buf;
               ok = restoreRuns w1 (length (restoreLog w1));
               w2 = w1\<lparr>restoreLog := restoreLog w1 @ [inputBytes]\<rparr>
           in if \<not> ok then (Some ErrRestore, t1\<lparr>inSyncWithDataPlane := False\<rparr>, w2)
              else
                (let (now, w3) = timeNow w2;
                     t2 = t1\<lparr>lastWriteTime := now,
                             postWriteInterval := initialPostWriteInterval t1\<rparr>
                 in (None, clearDirty newHashes t2, w3))))"

subsection \<open>Reading the dataplane: \<open>getHashesFromDataplane\<close> and \<open>loadDataplaneState\<close>\<close>

datatype 'a attempt = Got 'a | Failed error | Panicked panic

definition attemptToGetHashesFromDataplane :: "Table \<Rightarrow> World \<Rightarrow> Hashes attempt \<times> World" where
  "attemptToGetHashesFromDataplane t w =
     (let run = saveRuns w (saveCalls w);
          w' = w\<lparr>saveCalls := Suc (saveCalls w)\<rparr>
      in if pipeFails run then (Failed ErrPipe, w')
         else if startFails run then (Failed ErrStart, w')
         else
           (case readHashesFrom t (stdout run) of
              Inl err \<Rightarrow> if killFails run then (Panicked KillFailed, w') else (Failed err, w')
            | Inr hashes \<Rightarrow> if waitFails run then (Failed ErrWait, w') else (Got hashes, w')))"

text \<open>The retry loop of \<open>getHashesFromDataplane\<close>; it starts with three retries left.\<close>

primrec getHashesRetrying :: "nat \<Rightarrow> Table \<Rightarrow> World \<Rightarrow> (panic + Hashes) \<times> World" where
  "getHashesRetrying 0 t w =
     (case attemptToGetHashesFromDataplane t w of
        (Got hashes, w') \<Rightarrow> (Inr hashes, w')
      | (Failed err, w') \<Rightarrow> (Inl SaveFailedAfterRetries, w')
      | (Panicked p, w') \<Rightarrow> (Inl p, w'))"
| "getHashesRetrying (Suc retries) t w =
     (case attemptToGetHashesFromDataplane t w of
        (Got hashes, w') \<Rightarrow> (Inr hashes, w')
      | (Failed err, w') \<Rightarrow> getHashesRetrying retries t w'
      | (Panicked p, w') \<Rightarrow> (Inl p, w'))"

definition getHashesFromDataplane :: "Table \<Rightarrow> World \<Rightarrow> (panic + Hashes) \<times> World" where
  "getHashesFromDataplane t w = getHashesRetrying 3 t w"

text \<open>
  The body of the first loop of \<open>loadDataplaneState\<close>, over the chains of the cache, and
  of the second, over the chains read back.  Each step looks at and marks its own chain
  only, so the order in which Go ranges over the two maps does not show.
\<close>

definition checkChain :: "Fingerprint \<Rightarrow> Hashes \<Rightarrow> string \<times> string list \<Rightarrow> Table \<Rightarrow> Table" where
  "checkChain fp dataplaneHashes = (\<lambda>(chainName, expectedHashes) t.
     if setContains (dirtyChains t) chainName \<or> setContains (dirtyInserts t) chainName then t
     else
       (let dpHashes = map_of dataplaneHashes chainName
        in if \<not> ourChainsRegexp t chainName then
             (if length (insertedRules t chainName) = 0 then
                (if list_ex (\<lambda>hash. hash \<noteq> []) (elems dpHashes)
                 then t\<lparr>dirtyInserts := setAdd chainName (dirtyInserts t)\<rparr>
                 else t)
              else
                (let (expected, ours) =
                       expectedHashesForInsertChain fp t chainName (numEmptyStrings dpHashes)
                 in if dpHashes \<noteq> Some expected
                    then t\<lparr>dirtyInserts := setAdd chainName (dirtyInserts t)\<rparr>
                    else t))
           else if dpHashes \<noteq> Some expectedHashes
             then t\<lparr>dirtyChains := setAdd chainName (dirtyChains t)\<rparr>
           else t))"

definition scanChain :: "string \<times> string list \<Rightarrow> Table \<Rightarrow> Table" where
  "scanChain = (\<lambda>(chainName, hashes) t.
     if setContains (dirtyChains t) chainName \<or> setContains (dirtyInserts t) chainName then t
     else if map_of (chainToDataplaneHashes t) chainName \<noteq> None then t
     else if \<not> ourChainsRegexp t chainName then
       (if list_ex (\<lambda>hash. hash \<noteq> []) hashes
        then t\<lparr>dirtyInserts := setAdd chainName (dirtyInserts t)\<rparr>
        else t)
     else t\<lparr>dirtyChains := setAdd chainName (dirtyChains t)\<rparr>)"

definition markDirty :: "Fingerprint \<Rightarrow> Hashes \<Rightarrow> Table \<Rightarrow> Table" where
  "markDirty fp dataplaneHashes t =
     (let t1 = fold (checkChain fp dataplaneHashes) (chainToDataplaneHashes t) t;
          t2 = fold scanChain dataplaneHashes t1
      in t2\<lparr>chainToDataplaneHashes := dataplaneHashes, inSyncWithDataPlane := True\<rparr>)"

definition loadDataplaneState ::
  "Fingerprint \<Rightarrow> Table \<times> World \<Rightarrow> panic option \<times> Table \<times> World" where
  "loadDataplaneState fp = (\<lambda>(t, w).
     let t1 = t\<lparr>featureDetector := detections w (refreshCalls w)\<rparr>;
         w1 = w\<lparr>refreshCalls := Suc (refreshCalls w)\<rparr>;
         (now, w2) = timeNow w1;
         t2 = t1\<lparr>lastReadTime := now\<rparr>
     in case getHashesFromDataplane t2 w2 of
          (Inl p, w3) \<Rightarrow> (Some p, t2, w3)
        | (Inr dataplaneHashes, w3) \<Rightarrow> (None, markDirty fp dataplaneHashes t2, w3))"

subsection \<open>\<open>Apply\<close>\<close>

text \<open>The zero \<open>time.Time\<close>, 1 January of year 1, in nanoseconds before the Unix epoch.\<close>

definition zeroTime :: Time where
  "zeroTime = - 62135596800 * 1000000000"

definition InvalidateDataplaneCache :: "Table \<Rightarrow> Table" where
  "InvalidateDataplaneCache t =
     (if \<not> inSyncWithDataPlane t then t else t\<lparr>inSyncWithDataPlane := False\<rparr>)"

text \<open>\<open>Time.Sub\<close> saturates at the least and the greatest duration; \<open>Time.Add\<close> is exact.\<close>

definition Sub :: "Time \<Rightarrow> Time \<Rightarrow> Duration" where
  "Sub t u = word_of_int (max (- (2 ^ 63)) (min (2 ^ 63 - 1) (t - u)))"

definition Add :: "Time \<Rightarrow> Duration \<Rightarrow> Time" where
  "Add t d = t + sint d"

definition backoffDue :: "Time \<Rightarrow> Time \<Rightarrow> Duration \<Rightarrow> bool" where
  "backoffDue now lastWrite interval =
     (interval \<noteq> 0 \<and> word_sless interval Hour \<and> \<not> now < Add lastWrite interval)"

text \<open>
  The loop that doubles the post-write interval.  Doubling a 64-bit value shifts a bit
  out each time, so the loop ends for every start value.
\<close>

definition doublings :: "Duration \<Rightarrow> nat" where
  "doublings d = (LEAST k. d * 2 ^ k = 0)"

function postWriteBackoff :: "Time \<Rightarrow> Table \<times> bool \<Rightarrow> Table \<times> bool" where
  "postWriteBackoff now (t, invalidated) =
     (if backoffDue now (lastWriteTime t) (postWriteInterval t) then
        postWriteBackoff now
          (let t' = t\<lparr>postWriteInterval := postWriteInterval t * 2\<rparr>
           in if \<not> invalidated then (InvalidateDataplaneCache t', True) else (t', invalidated))
      else (t, invalidated))"
  by pat_completeness auto

termination postWriteBackoff
proof (relation "measure (\<lambda>(now, t, invalidated). doublings (postWriteInterval t))")
  show "wf (measure (\<lambda>(now, t, invalidated). doublings (postWriteInterval t)))"
    by simp
next
  fix now :: Time and t :: Table and invalidated :: bool
  assume due: "backoffDue now (lastWriteTime t) (postWriteInterval t)"
  define d where "d = postWriteInterval t"
  have nz: "d \<noteq> 0"
    using due by (simp add: backoffDue_def d_def)
  have l: "LENGTH(64) = 64" by simp
  have "(2::Duration) ^ LENGTH(64) = 0" by (rule word_exp_length_eq_0)
  then have e: "(2::Duration) ^ 64 = 0" by (simp only: l)
  have "d * 2 ^ 64 = 0" by (simp only: e mult_zero_right)
  then have z: "d * 2 ^ doublings d = 0"
    unfolding doublings_def by (rule LeastI)
  obtain k where k: "doublings d = Suc k"
    using nz z by (cases "doublings d") auto
  have "(d * 2) * 2 ^ k = 0"
    using z k by (simp add: mult.assoc)
  then have "doublings (d * 2) \<le> k"
    unfolding doublings_def by (rule Least_le)
  then have less: "doublings (d * 2) < doublings d"
    using k by simp
  show "((now, let t' = t\<lparr>postWriteInterval := postWriteInterval t * 2\<rparr>
                in if \<not> invalidated then (InvalidateDataplaneCache t', True)
                   else (t', invalidated)),
         now, t, invalidated)
        \<in> measure (\<lambda>(now, t, invalidated). doublings (postWriteInterval t))"
    using less by (simp add: d_def InvalidateDataplaneCache_def Let_def)
qed

text \<open>
  The retry loop of \<open>Apply\<close>, with the number of retries left (ten at the start).  When
  the retries are used up the code runs the save command once more for diagnostics and
  panics.  \<open>timeSleep\<close> between attempts has no effect on the table.
\<close>

definition reloadIfNeeded ::
  "Fingerprint \<Rightarrow> Table \<times> World \<Rightarrow> panic option \<times> Table \<times> World" where
  "reloadIfNeeded fp = (\<lambda>(t, w).
     if \<not> inSyncWithDataPlane t then loadDataplaneState fp (t, w) else (None, t, w))"

definition diagnosticSave :: "World \<Rightarrow> World" where
  "diagnosticSave w = w\<lparr>saveCalls := Suc (saveCalls w)\<rparr>"

primrec applyRetrying ::
  "Fingerprint \<Rightarrow> nat \<Rightarrow> Table \<times> World \<Rightarrow> panic option \<times> Table \<times> World" where
  "applyRetrying fp 0 tw =
     (case reloadIfNeeded fp tw of
        (Some p, t, w) \<Rightarrow> (Some p, t, w)
      | (None, t, w) \<Rightarrow>
          (case applyUpdates fp (t, w) of
             (Some err, t', w') \<Rightarrow> (Some RestoreFailedAfterRetries, t', diagnosticSave w')
           | (None, t', w') \<Rightarrow> (None, t', w')))"
| "applyRetrying fp (Suc retries) tw =
     (case reloadIfNeeded fp tw of
        (Some p, t, w) \<Rightarrow> (Some p, t, w)
      | (None, t, w) \<Rightarrow>
          (case applyUpdates fp (t, w) of
             (Some err, t', w') \<Rightarrow> applyRetrying fp retries (t', w')
           | (None, t', w') \<Rightarrow> (None, t', w')))"

text \<open>The last part of \<open>Apply\<close>: when to be called again.\<close>

definition rescheduleAfter :: "Time \<Rightarrow> Table \<Rightarrow> Duration" where
  "rescheduleAfter now t =
     (let fromRefresh =
            (if word_sless 0 (refreshInterval t)
             then refreshInterval t - Sub now (lastReadTime t)
             else 0)
      in if word_sless (postWriteInterval t) Hour then
           (let postWriteReched = Sub (Add (lastWriteTime t) (postWriteInterval t)) now
            in if word_sle postWriteReched 0 then 1 * Millisecond
               else if word_sle (refreshInterval t) 0 \<or> word_sless postWriteReched fromRefresh
                 then postWriteReched
               else fromRefresh)
         else fromRefresh)"

text \<open>The first part of \<open>Apply\<close>: the two timers.\<close>

definition checkTimers :: "Time \<Rightarrow> Table \<Rightarrow> Table" where
  "checkTimers now t =
     (let lastReadToNow = Sub now (lastReadTime t);
          (t1, invalidated) =
             (if word_sless 0 (refreshInterval t) \<and> word_sless (refreshInterval t) lastReadToNow
              then (InvalidateDataplaneCache t, True)
              else (t, False))
      in fst (postWriteBackoff now (t1, invalidated)))"

definition Apply ::
  "Fingerprint \<Rightarrow> Table \<times> World \<Rightarrow> (panic + Duration) \<times> Table \<times> World" where
  "Apply fp = (\<lambda>(t, w).
     let (now, w1) = timeNow w;
         t1 = checkTimers now t
     in case applyRetrying fp 10 (t1, w1) of
          (Some p, t2, w2) \<Rightarrow> (Inl p, t2, w2)
        | (None, t2, w2) \<Rightarrow> (Inr (rescheduleAfter now t2), t2, w2))"

text \<open>
  The reschedule time in the words of the specification: the minimum of the time left
  of the refresh interval (when one is configured) and of the post-write interval (when
  it is below one hour), clamped to a millisecond when that minimum is already due.
\<close>

definition specReschedule :: "Time \<Rightarrow> Table \<Rightarrow> Duration" where
  "specReschedule now t =
     (let refreshLeft = refreshInterval t - Sub now (lastReadTime t);
          postWriteLeft = Sub (Add (lastWriteTime t) (postWriteInterval t)) now;
          refreshOn = word_sless 0 (refreshInterval t);
          postWriteOn = word_sless (postWriteInterval t) Hour;
          least = (if refreshOn \<and> postWriteOn
                     then (if word_sless postWriteLeft refreshLeft then postWriteLeft
                           else refreshLeft)
                   else if refreshOn then refreshLeft
                   else if postWriteOn then postWriteLeft
                   else 0)
      in if (refreshOn \<or> postWriteOn) \<and> word_sle least 0 then 1 * Millisecond else least)"

text \<open>
  Whether, between two states of the world, the restore command has accepted a
  (non-empty) input: one of the runs logged in between succeeded.
\<close>

definition restoreAccepted :: "World \<Rightarrow> World \<Rightarrow> bool" where
  "restoreAccepted w w' =
     list_ex (\<lambda>n. restoreRuns w n \<and> restoreLog w' ! n \<noteq> [])
       [length (restoreLog w)..<length (restoreLog w')]"

subsection \<open>The desired state\<close>

definition SetRuleInsertions :: "string \<Rightarrow> Rule list \<Rightarrow> Table \<Rightarrow> Table" where
  "SetRuleInsertions chainName rules t =
     InvalidateDataplaneCache
       (t\<lparr>chainToInsertedRules := (chainToInsertedRules t)(chainName \<mapsto> rules),
          dirtyInserts := setAdd chainName (dirtyInserts t)\<rparr>)"

definition UpdateChain :: "Chain \<Rightarrow> Table \<Rightarrow> Table" where
  "UpdateChain chain t =
     InvalidateDataplaneCache
       (t\<lparr>chainNameToChain := (chainNameToChain t)(Name chain \<mapsto> chain),
          dirtyChains := setAdd (Name chain) (dirtyChains t)\<rparr>)"

definition UpdateChains :: "Chain list \<Rightarrow> Table \<Rightarrow> Table" where
  "UpdateChains cs t = fold UpdateChain cs t"

definition RemoveChainByName :: "string \<Rightarrow> Table \<Rightarrow> Table" where
  "RemoveChainByName name t =
     InvalidateDataplaneCache
       (if chainNameToChain t name \<noteq> None
        then t\<lparr>chainNameToChain := (chainNameToChain t)(name := None),
               dirtyChains := setAdd name (dirtyChains t)\<rparr>
        else t)"

definition RemoveChains :: "Chain list \<Rightarrow> Table \<Rightarrow> Table" where
  "RemoveChains cs t = fold (\<lambda>chain. RemoveChainByName (Name chain)) cs t"

subsection \<open>\<open>NewTable\<close>\<close>

definition tableToKernelChains :: "string \<Rightarrow> string list" where
  "tableToKernelChains name =
     (if name = ''filter'' then [''INPUT'', ''FORWARD'', ''OUTPUT'']
      else if name = ''nat'' then [''PREROUTING'', ''INPUT'', ''OUTPUT'', ''POSTROUTING'']
      else if name = ''mangle''
        then [''PREROUTING'', ''INPUT'', ''FORWARD'', ''OUTPUT'', ''POSTROUTING'']
      else if name = ''raw'' then [''PREROUTING'', ''OUTPUT'']
      else [])"

record TableOptions =
  HistoricChainPrefixes :: "string list"
  ExtraCleanupRegexPattern :: string
  BackendMode :: string
  InsertMode :: string
  RefreshInterval :: Duration
  PostWriteInterval :: Duration
  LockTimeout :: Duration
  LockProbeInterval :: Duration

text \<open>
  \<open>NewTable\<close> compiles three patterns with \<open>regexp.MustCompile\<close>.  Go's \<open>regexp\<close> is
  not part of this development: the parameter \<open>mustCompile\<close> of \<open>NewTable\<close> stands for
  it.  It yields, for a pattern, the two functions the table calls on the compiled
  expression (the first capture group of the leftmost match, and whether there is a
  match), or \<open>None\<close> when the pattern does not compile and \<open>MustCompile\<close> panics.  The
  pattern texts are built as the code builds them.
\<close>

record Regexp =
  firstCapture :: "string \<Rightarrow> string option"
  matches :: "string \<Rightarrow> bool"

primrec joinStrings :: "string \<Rightarrow> string list \<Rightarrow> string" where
  "joinStrings sep [] = []"
| "joinStrings sep (x # xs) = (if xs = [] then x else x @ sep @ joinStrings sep xs)"

definition hashCommentPattern :: "string \<Rightarrow> string" where
  "hashCommentPattern hashPrefix =
     ''--comment '' @ [CHR 0x22] @ ''?'' @ hashPrefix @ ''([a-zA-Z0-9_-]+)'' @ [CHR 0x22] @ ''?''"

definition ourChainsPattern :: "TableOptions \<Rightarrow> string" where
  "ourChainsPattern options =
     ''^('' @ joinStrings ''|'' (HistoricChainPrefixes options) @ '')''"

definition oldInsertRegexpParts :: "TableOptions \<Rightarrow> string list" where
  "oldInsertRegexpParts options =
     map (\<lambda>p. ''(?:-j|--jump) '' @ p) (HistoricChainPrefixes options)
     @ (if ExtraCleanupRegexPattern options \<noteq> [] then [ExtraCleanupRegexPattern options]
        else [])"

definition oldInsertPattern :: "TableOptions \<Rightarrow> string" where
  "oldInsertPattern options = joinStrings ''|'' (oldInsertRegexpParts options)"

text \<open>\<open>strings.ToLower\<close> on the ASCII letters, which is all a backend mode consists of.\<close>

definition toLower :: "string \<Rightarrow> string" where
  "toLower s =
     map (\<lambda>c. if (65::nat) \<le> of_char c \<and> of_char c \<le> (90::nat)
              then char_of (of_char c + (32::nat)) else c) s"

text \<open>
  \<open>findBestBinary\<close>: \<open>lookPath\<close> tells whether an executable of that name is found;
  \<open>None\<close> is the panic when no candidate is.
\<close>

definition findBestBinary ::
  "(string \<Rightarrow> bool) \<Rightarrow> 8 word \<Rightarrow> string \<Rightarrow> string \<Rightarrow> string option" where
  "findBestBinary lookPath ipVersion backendMode saveOrRestore =
     (let verInfix = (if ipVersion = 6 then ''6'' else []);
          candidates =
            [''ip'' @ verInfix @ ''tables-'' @ backendMode @ ''-'' @ saveOrRestore,
             ''ip'' @ verInfix @ ''tables-'' @ saveOrRestore]
      in List.find lookPath candidates)"

text \<open>
  The pre-population of the insert table: an empty rule list and a dirty mark for each
  kernel chain of the table.
\<close>

definition kernelInserts :: "string \<Rightarrow> (string \<rightharpoonup> Rule list) \<times> StringSet" where
  "kernelInserts name =
     fold (\<lambda>kernelChain (inserts, dirty). (inserts(kernelChain \<mapsto> []), setAdd kernelChain dirty))
       (tableToKernelChains name) (Map.empty, [])"

definition NewTable ::
  "(string \<Rightarrow> Regexp option) \<Rightarrow> (string \<Rightarrow> bool) \<Rightarrow> string \<Rightarrow> 8 word \<Rightarrow> string \<Rightarrow> Features
     \<Rightarrow> TableOptions \<Rightarrow> World \<Rightarrow> (panic + Table) \<times> World" where
  "NewTable mustCompile lookPath name ipVersion hashPrefix detector options w =
     (case (mustCompile (hashCommentPattern hashPrefix),
            mustCompile (ourChainsPattern options),
            mustCompile (oldInsertPattern options)) of
        (Some hashComment, Some ourChains, Some oldInsert) \<Rightarrow>
          (let (inserts, dirty) = kernelInserts name
           in if InsertMode options \<notin> set [[], ''insert'', ''append'']
              then (Inl UnknownInsertMode, w)
              else
                (let mode = (if InsertMode options = ''append'' then ''append'' else ''insert'');
                     postWrite = (if word_sle (PostWriteInterval options) minPostWriteInterval
                                  then minPostWriteInterval else PostWriteInterval options);
                     (now, w1) = timeNow w;
                     iptablesVariant = (if toLower (BackendMode options) = [] then ''legacy''
                                        else toLower (BackendMode options))
                 in case (findBestBinary lookPath ipVersion iptablesVariant ''restore'',
                          findBestBinary lookPath ipVersion iptablesVariant ''save'') of
                      (Some restoreCmd, Some saveCmd) \<Rightarrow>
                        (Inr \<lparr>TableName = name,
                              IPVersion = ipVersion,
                              featureDetector = detector,
                              chainToInsertedRules = inserts,
                              dirtyInserts = dirty,
                              chainNameToChain = Map.empty,
                              dirtyChains = [],
                              inSyncWithDataPlane = False,
                              chainToDataplaneHashes = [],
                              hashCommentPrefix = hashPrefix,
                              hashCommentRegexp = firstCapture hashComment,
                              ourChainsRegexp = matches ourChains,
                              oldInsertRegexp = matches oldInsert,
                              nftablesMode = (iptablesVariant = ''nft''),
                              iptablesRestoreCmd = restoreCmd,
                              iptablesSaveCmd = saveCmd,
                              insertMode = mode,
                              lastReadTime = zeroTime,
                              lastWriteTime = now,
                              initialPostWriteInterval = postWrite,
                              postWriteInterval = postWrite,
                              refreshInterval = RefreshInterval options,
                              lockTimeout = LockTimeout options,
                              lockProbeInterval = LockProbeInterval options\<rparr>, w1)
                    | _ \<Rightarrow> (Inl NoIptablesCommand, w1)))
      | _ \<Rightarrow> (Inl InvalidPattern, w))"

subsection \<open>The checks of the reload, chain by chain\<close>

text \<open>
  The test that the first loop of \<open>loadDataplaneState\<close> applies to a chain that is not
  ours, and the marks that one step of each loop adds.
\<close>

definition unexpectedInserts :: "Fingerprint \<Rightarrow> Hashes \<Rightarrow> Table \<Rightarrow> string \<Rightarrow> bool" where
  "unexpectedInserts fp dataplaneHashes t chainName =
     (let dpHashes = map_of dataplaneHashes chainName
      in if length (insertedRules t chainName) = 0
         then list_ex (\<lambda>hash. hash \<noteq> []) (elems dpHashes)
         else dpHashes \<noteq> Some (fst (expectedHashesForInsertChain fp t chainName
                                         (numEmptyStrings dpHashes))))"

definition isDirty :: "Table \<Rightarrow> string \<Rightarrow> bool" where
  "isDirty t chainName =
     (setContains (dirtyChains t) chainName \<or> setContains (dirtyInserts t) chainName)"

text \<open>
  The expected hashes of an insertion chain in the words of the specification, for a
  number \<open>n\<close> of fingerprints that are not ours: in append mode that many empty strings
  followed by our fingerprints, otherwise our fingerprints followed by that many empty
  strings.
\<close>

definition specExpectedHashes :: "Fingerprint \<Rightarrow> Table \<Rightarrow> string \<Rightarrow> nat \<Rightarrow> string list" where
  "specExpectedHashes fp t chainName n =
     (let ours = RuleHashes fp (featureDetector t)
                   \<lparr>Name = chainName, Rules = insertedRules t chainName\<rparr>
      in if insertMode t = ''append'' then replicate n [] @ ours else ours @ replicate n [])"

subsection \<open>The lines of the restore input, chain by chain\<close>

text \<open>
  Notions for stating what \<open>applyUpdates\<close> writes: the chain a line is about, all lines
  of a restore input, and the lines each pass writes when it visits one chain.
\<close>

primrec lineChain :: "Line \<Rightarrow> string" where
  "lineChain (ForwardReference c) = c"
| "lineChain (RenderReplace r c n frag f) = c"
| "lineChain (RenderAppend r c frag f) = c"
| "lineChain (RenderInsert r c frag f) = c"
| "lineChain (DeleteRule c n) = c"
| "lineChain (DeleteChain c) = c"

definition inputLines :: "RestoreInput \<Rightarrow> Line list" where
  "inputLines input = concat (map snd input)"

definition bufferLines :: "RestoreInputBuilder \<Rightarrow> Line list" where
  "bufferLines b =
     inputLines (written b) @ (case current b of None \<Rightarrow> [] | Some (n, ls) \<Rightarrow> ls)"

text \<open>
  The lines about one chain, and the lines handed to the restore command between two
  states of the world.
\<close>

definition chainLines :: "string \<Rightarrow> Line list \<Rightarrow> Line list" where
  "chainLines c ls = filter (\<lambda>l. lineChain l = c) ls"

definition restoredLines :: "World \<Rightarrow> World \<Rightarrow> Line list" where
  "restoredLines w w' =
     concat (map inputLines (drop (length (restoreLog w)) (restoreLog w')))"

definition alreadyCorrect :: "Fingerprint \<Rightarrow> Table \<Rightarrow> string \<Rightarrow> bool" where
  "alreadyCorrect fp t chainName =
     (nftablesMode t
      \<and> 0 < len (map_of (chainToDataplaneHashes t) chainName)
      \<and> RuleHashesOf fp (featureDetector t) (chainNameToChain t chainName)
          = map_of (chainToDataplaneHashes t) chainName)"

definition flushLines :: "Fingerprint \<Rightarrow> Table \<Rightarrow> string \<Rightarrow> Line list" where
  "flushLines fp t chainName =
     (if alreadyCorrect fp t chainName then []
      else if nftablesMode t \<or> chainNameToChain t chainName = None
              \<or> map_of (chainToDataplaneHashes t) chainName = None
        then [ForwardReference chainName]
      else [])"

definition updateLines :: "Fingerprint \<Rightarrow> Table \<Rightarrow> string \<Rightarrow> Line list" where
  "updateLines fp t chainName =
     (case chainNameToChain t chainName of
        None \<Rightarrow> []
      | Some chain \<Rightarrow>
          (let previousHashes =
                 (if nftablesMode t then None
                  else map_of (chainToDataplaneHashes t) chainName);
               currentHashes = RuleHashes fp (featureDetector t) chain
           in List.map_filter (ruleDelta t chain chainName previousHashes currentHashes)
                [0..<max (len previousHashes) (length currentHashes)]))"

definition insertsInSync :: "Fingerprint \<Rightarrow> Table \<Rightarrow> string \<Rightarrow> bool" where
  "insertsInSync fp t chainName =
     (Some (fst (expectedHashesForInsertChain fp t chainName
                   (numEmptyStrings (map_of (chainToDataplaneHashes t) chainName))))
      = map_of (chainToDataplaneHashes t) chainName)"

definition insertLines :: "Fingerprint \<Rightarrow> Table \<Rightarrow> string \<Rightarrow> Line list" where
  "insertLines fp t chainName =
     (let previousHashes = map_of (chainToDataplaneHashes t) chainName;
          newRuleHashes =
            snd (expectedHashesForInsertChain fp t chainName (numEmptyStrings previousHashes));
          rules = insertedRules t chainName
      in if insertsInSync fp t chainName then []
         else
           map (\<lambda>i. DeleteRule chainName (i + 1))
             (filter (\<lambda>i. elems previousHashes ! i \<noteq> []) (rev [0..<len previousHashes]))
           @ (if insertMode t = ''insert''
              then map (\<lambda>i. RenderInsert (rules ! i) chainName
                               (commentFrag t (newRuleHashes ! i)) (featureDetector t))
                     (rev [0..<length rules])
              else map (\<lambda>i. RenderAppend (rules ! i) chainName
                               (commentFrag t (newRuleHashes ! i)) (featureDetector t))
                     [0..<length rules]))"

definition deleteRefLines :: "Table \<Rightarrow> string \<Rightarrow> Line list" where
  "deleteRefLines t chainName =
     (if chainNameToChain t chainName = None then [ForwardReference chainName] else [])"

definition deleteLines :: "Table \<Rightarrow> string \<Rightarrow> Line list" where
  "deleteLines t chainName =
     (if chainNameToChain t chainName = None then [DeleteChain chainName] else [])"

text \<open>
  The chains left dirty by the first pass, the new hashes the passes compute (\<open>Some None\<close>
  for a chain to delete, \<open>None\<close> for a chain they leave alone), and the lines they write:
  the \<open>j\<close>-th iteration of this call visits its set in the order the world gives it.
\<close>

definition stillDirty :: "Fingerprint \<Rightarrow> Table \<Rightarrow> StringSet" where
  "stillDirty fp t = filter (\<lambda>c. \<not> alreadyCorrect fp t c) (dirtyChains t)"

definition newHashesOf :: "Fingerprint \<Rightarrow> Table \<Rightarrow> string \<Rightarrow> string list option option" where
  "newHashesOf fp t c =
     (if c \<in> set (stillDirty fp t) \<and> chainNameToChain t c = None then Some None
      else if c \<in> set (dirtyInserts t) \<and> \<not> insertsInSync fp t c
        then Some (Some (fst (expectedHashesForInsertChain fp t c
                               (numEmptyStrings (map_of (chainToDataplaneHashes t) c)))))
      else if c \<in> set (stillDirty fp t)
        then map_option (\<lambda>chain. Some (RuleHashes fp (featureDetector t) chain))
               (chainNameToChain t c)
      else None)"

definition visitOrder :: "World \<Rightarrow> nat \<Rightarrow> StringSet \<Rightarrow> string list" where
  "visitOrder w j s = pickOrder (iterSeeds w (iterCalls w + j)) s"

definition writtenLines :: "Fingerprint \<Rightarrow> Table \<Rightarrow> World \<Rightarrow> Line list" where
  "writtenLines fp t w =
     concat (map (flushLines fp t) (visitOrder w 0 (dirtyChains t)))
     @ concat (map (updateLines fp t) (visitOrder w 1 (stillDirty fp t)))
     @ concat (map (insertLines fp t) (visitOrder w 2 (dirtyInserts t)))
     @ (if nftablesMode t
        then concat (map (deleteRefLines t) (visitOrder w 3 (stillDirty fp t)))
             @ concat (map (deleteLines t) (visitOrder w 4 (stillDirty fp t)))
        else concat (map (deleteLines t) (visitOrder w 3 (stillDirty fp t))))"

definition updateHashes :: "Fingerprint \<Rightarrow> Table \<Rightarrow> string \<Rightarrow> NewHashes \<Rightarrow> NewHashes" where
  "updateHashes fp t c nh =
     (case chainNameToChain t c of
        None \<Rightarrow> nh
      | Some chain \<Rightarrow> AList.update c (Some (RuleHashes fp (featureDetector t) chain)) nh)"

definition insertHashes :: "Fingerprint \<Rightarrow> Table \<Rightarrow> string \<Rightarrow> NewHashes \<Rightarrow> NewHashes" where
  "insertHashes fp t c nh =
     (if insertsInSync fp t c then nh
      else AList.update c
             (Some (fst (expectedHashesForInsertChain fp t c
                           (numEmptyStrings (map_of (chainToDataplaneHashes t) c))))) nh)"

definition deleteHashes :: "Table \<Rightarrow> string \<Rightarrow> NewHashes \<Rightarrow> NewHashes" where
  "deleteHashes t c nh =
     (if chainNameToChain t c = None then AList.update c None nh else nh)"

text \<open>The three results of \<open>buildInput\<close>; \<open>builtBuffer\<close> is the buffer that \<open>buf.Empty()\<close> tests.\<close>

definition builtDirty :: "Fingerprint \<Rightarrow> Table \<times> World \<Rightarrow> StringSet" where
  "builtDirty fp tw = fst (fst (buildInput fp tw))"

definition builtHashes :: "Fingerprint \<Rightarrow> Table \<times> World \<Rightarrow> NewHashes" where
  "builtHashes fp tw = fst (snd (fst (buildInput fp tw)))"

definition builtBuffer :: "Fingerprint \<Rightarrow> Table \<times> World \<Rightarrow> RestoreInputBuilder" where
  "builtBuffer fp tw = snd (snd (fst (buildInput fp tw)))"

text \<open>Merging new hashes into the cache, entry by entry.\<close>

definition mergedHashes ::
  "string list option option \<Rightarrow> string list option \<Rightarrow> string list option" where
  "mergedHashes new old =
     (case new of None \<Rightarrow> old | Some None \<Rightarrow> None | Some (Some hs) \<Rightarrow> Some hs)"

definition opened :: "RestoreInputBuilder \<Rightarrow> bool" where
  "opened b = (current b \<noteq> None)"

definition noEmptyTransaction :: "RestoreInputBuilder \<Rightarrow> bool" where
  "noEmptyTransaction b = list_all (\<lambda>tx. snd tx \<noteq> []) (written b)"

subsection \<open>Fixtures\<close>

text \<open>
  The table of the hash extraction tests of \<open>table_test.go\<close>: table \<open>filter\<close>, IP
  version 4, hash prefix \<open>cali:\<close>, historic prefixes \<open>felix-\<close> and \<open>cali\<close>, the extra
  cleanup pattern \<open>an-old-rule\<close>, legacy backend, every executable found.  Its three
  patterns consist of literal text, alternatives and one character class, and are
  matched here by searching for that text:
  \<^item> \<open>--comment "?cali:([a-zA-Z0-9_-]+)"?\<close>: the leftmost place where \<open>--comment \<close>, an
    optional quote, \<open>cali:\<close> and at least one hash character follow one another; the
    capture is the longest run of hash characters;
  \<^item> \<open>^(felix-|cali)\<close>: \<open>felix-\<close> or \<open>cali\<close> starts the name;
  \<^item> \<open>(?:-j|--jump) felix-|(?:-j|--jump) cali|an-old-rule\<close>: one of the five texts
    occurs in the line.
\<close>

definition hashChar :: "char \<Rightarrow> bool" where
  "hashChar c =
     (c \<in> set ''abcdefghijklmnopqrstuvwxyzABCDEFGHIJKLMNOPQRSTUVWXYZ0123456789_-'')"

definition hashAfterPrefix :: "string \<Rightarrow> string \<Rightarrow> string option" where
  "hashAfterPrefix literal s =
     (if prefix literal s \<and> takeWhile hashChar (drop (length literal) s) \<noteq> []
      then Some (takeWhile hashChar (drop (length literal) s)) else None)"

definition hashCommentAt :: "string \<Rightarrow> string \<Rightarrow> string option" where
  "hashCommentAt literal s =
     (if prefix ''--comment '' s then
        (let rest = drop 10 s;
             quoted = (if prefix [CHR 0x22] rest then hashAfterPrefix literal (drop 1 rest)
                       else None)
         in case quoted of Some h \<Rightarrow> Some h | None \<Rightarrow> hashAfterPrefix literal rest)
      else None)"

primrec findHashComment :: "string \<Rightarrow> string \<Rightarrow> string option" where
  "findHashComment literal [] = None"
| "findHashComment literal (c # cs) =
     (case hashCommentAt literal (c # cs) of
        Some h \<Rightarrow> Some h
      | None \<Rightarrow> findHashComment literal cs)"

primrec containsString :: "string \<Rightarrow> string \<Rightarrow> bool" where
  "containsString pat [] = (pat = [])"
| "containsString pat (c # cs) = (prefix pat (c # cs) \<or> containsString pat cs)"

definition testOurChains :: "string \<Rightarrow> bool" where
  "testOurChains name = list_ex (\<lambda>p. prefix p name) [''felix-'', ''cali'']"

definition testOldInsert :: "string \<Rightarrow> bool" where
  "testOldInsert line =
     list_ex (\<lambda>part. containsString part line)
       [''-j felix-'', ''--jump felix-'', ''-j cali'', ''--jump cali'', ''an-old-rule'']"

definition testCompile :: "string \<Rightarrow> Regexp option" where
  "testCompile pattern =
     (if pattern = ''--comment '' @ [CHR 0x22] @ ''?cali:([a-zA-Z0-9_-]+)'' @ [CHR 0x22] @ ''?''
        then Some \<lparr>firstCapture = findHashComment ''cali:'',
                   matches = (\<lambda>line. findHashComment ''cali:'' line \<noteq> None)\<rparr>
      else if pattern = ''^(felix-|cali)''
        then Some \<lparr>firstCapture = (\<lambda>name. List.find (\<lambda>p. prefix p name) [''felix-'', ''cali'']),
                   matches = testOurChains\<rparr>
      else if pattern = ''(?:-j|--jump) felix-|(?:-j|--jump) cali|an-old-rule''
        then Some \<lparr>firstCapture = (\<lambda>line. None), matches = testOldInsert\<rparr>
      else None)"

definition noFeatures :: Features where
  "noFeatures = \<lparr>SNATFullyRandom = False, MASQFullyRandom = False, RestoreSupportsLock = False\<rparr>"

definition testOptions :: TableOptions where
  "testOptions =
     \<lparr>HistoricChainPrefixes = [''felix-'', ''cali''],
      ExtraCleanupRegexPattern = ''an-old-rule'',
      BackendMode = ''legacy'',
      InsertMode = [],
      RefreshInterval = 0,
      PostWriteInterval = 0,
      LockTimeout = 0,
      LockProbeInterval = 0\<rparr>"

definition testTable :: Table where
  "testTable =
     \<lparr>TableName = ''filter'',
      IPVersion = 4,
      featureDetector = noFeatures,
      chainToInsertedRules = [''INPUT'' \<mapsto> [], ''FORWARD'' \<mapsto> [], ''OUTPUT'' \<mapsto> []],
      dirtyInserts = [''INPUT'', ''FORWARD'', ''OUTPUT''],
      chainNameToChain = Map.empty,
      dirtyChains = [],
      inSyncWithDataPlane = False,
      chainToDataplaneHashes = [],
      hashCommentPrefix = ''cali:'',
      hashCommentRegexp = findHashComment ''cali:'',
      ourChainsRegexp = testOurChains,
      oldInsertRegexp = testOldInsert,
      nftablesMode = False,
      iptablesRestoreCmd = ''iptables-legacy-restore'',
      iptablesSaveCmd = ''iptables-legacy-save'',
      insertMode = ''insert'',
      lastReadTime = zeroTime,
      lastWriteTime = 0,
      initialPostWriteInterval = minPostWriteInterval,
      postWriteInterval = minPostWriteInterval,
      refreshInterval = 0,
      lockTimeout = 0,
      lockProbeInterval = 0\<rparr>"

definition newClosableBuf :: "string \<Rightarrow> Reader" where
  "newClosableBuf s = \<lparr>content = s, readFails = False\<rparr>"

definition quote :: string where
  "quote = [CHR 0x22]"

text \<open>A world with a clock that stands still, save runs that print nothing and restore
  runs that succeed.\<close>

definition quietRun :: SaveRun where
  "quietRun =
     \<lparr>pipeFails = False, startFails = False, stdout = newClosableBuf [],
      killFails = False, waitFails = False\<rparr>"

definition stillWorld :: World where
  "stillWorld =
     \<lparr>nowReadings = (\<lambda>n. 0), nowCalls = 0,
      saveRuns = (\<lambda>n. quietRun), saveCalls = 0,
      restoreRuns = (\<lambda>n. True), restoreLog = [],
      detections = (\<lambda>n. noFeatures), refreshCalls = 0,
      iterSeeds = (\<lambda>n. []), iterCalls = 0\<rparr>"

text \<open>A fingerprint function for the examples, a rule, and a restore command that fails.\<close>

definition testFingerprint :: Fingerprint where
  "testFingerprint features name rules i = ''abcd''"

definition rule1 :: Rule where
  "rule1 = \<lparr>Match = [''-m foobar --foobar baz''], Action = JumpAction ''biff''\<rparr>"

definition failingWorld :: World where
  "failingWorld = stillWorld\<lparr>restoreRuns := (\<lambda>n. False)\<rparr>"

text \<open>
  An nftables-mode table with two dirty chains: \<open>cali-a\<close> is in the dataplane with the
  hashes it should have, \<open>cali-b\<close> is not there yet.
\<close>

definition nftTable :: Table where
  "nftTable =
     testTable\<lparr>nftablesMode := True,
               chainNameToChain := [''cali-a'' \<mapsto> \<lparr>Name = ''cali-a'', Rules = [rule1]\<rparr>,
                                    ''cali-b'' \<mapsto> \<lparr>Name = ''cali-b'', Rules = [rule1]\<rparr>],
               chainToDataplaneHashes := [(''cali-a'', [''abcd''])],
               dirtyChains := [''cali-a'', ''cali-b''],
               dirtyInserts := [],
               inSyncWithDataPlane := True\<rparr>"

definition legacyTable :: Table where
  "legacyTable = nftTable\<lparr>nftablesMode := False\<rparr>"

text \<open>
  A table in insert mode that hooks \<open>FORWARD\<close> with one rule and believes the chain to
  hold that rule followed by one foreign rule; the same table with its cache
  invalidated; and a save command that shows another foreign rule in front.
\<close>

definition hookedTable :: Table where
  "hookedTable =
     testTable\<lparr>chainToInsertedRules := [''FORWARD'' \<mapsto> [rule1]],
                chainToDataplaneHashes := [(''FORWARD'', [''abcd'', []])],
                dirtyInserts := [],
                inSyncWithDataPlane := True\<rparr>"

definition staleTable :: Table where
  "staleTable = hookedTable\<lparr>inSyncWithDataPlane := False\<rparr>"

definition foreignSave :: string where
  "foreignSave =
     ''*filter'' @ [newline]
     @ '':FORWARD ACCEPT [0:0]'' @ [newline]
     @ ''-A FORWARD -j foreign'' @ [newline]
     @ ''-A FORWARD -m comment --comment '' @ quote @ ''cali:abcd'' @ quote
       @ '' -m foobar --foobar baz -j biff'' @ [newline]
     @ ''-A FORWARD -j other'' @ [newline]
     @ ''COMMIT'' @ [newline]"

definition foreignWorld :: World where
  "foreignWorld =
     stillWorld\<lparr>saveRuns := (\<lambda>n. quietRun\<lparr>stdout := newClosableBuf foreignSave\<rparr>)\<rparr>"

text \<open>
  A table in sync with nothing to do, read at time 0 with a refresh interval of ten
  seconds and a post-write interval grown to 51.2 seconds; and a clock that shows ten
  seconds.
\<close>

definition idleTable :: Table where
  "idleTable =
     testTable\<lparr>dirtyInserts := [],
                inSyncWithDataPlane := True,
                lastReadTime := 0,
                lastWriteTime := 0,
                refreshInterval := 10000000000,
                postWriteInterval := 51200000000\<rparr>"

definition worldAtTenSeconds :: World where
  "worldAtTenSeconds = stillWorld\<lparr>nowReadings := (\<lambda>n. 10000000000)\<rparr>"

text \<open>
  A table whose last write was at time 0 with the post-write interval at its initial
  50 ms, and a clock that shows 120 ms: the interval is due at 50 ms and at 100 ms, not
  at 200 ms.
\<close>

definition writtenTable :: Table where
  "writtenTable = testTable\<lparr>dirtyInserts := [], inSyncWithDataPlane := True, lastReadTime := 0\<rparr>"

definition worldAt120ms :: World where
  "worldAt120ms = stillWorld\<lparr>nowReadings := (\<lambda>n. 120000000)\<rparr>"

text \<open>
  A save command that shows, in \<open>FORWARD\<close>, a rule left by a previous run in front of a
  foreign rule.
\<close>

definition leftoverSave :: string where
  "leftoverSave =
     '':FORWARD ACCEPT [0:0]'' @ [newline]
     @ ''-A FORWARD -m comment --comment '' @ quote @ ''cali:oldhash'' @ quote
       @ '' -j cali-FORWARD'' @ [newline]
     @ ''-A FORWARD -j other'' @ [newline]"

definition leftoverWorld :: World where
  "leftoverWorld =
     stillWorld\<lparr>saveRuns := (\<lambda>n. quietRun\<lparr>stdout := newClosableBuf leftoverSave\<rparr>)\<rparr>"

text \<open>
  A caller that hands the name of a kernel chain to \<open>UpdateChain\<close> and then to
  \<open>RemoveChainByName\<close>; and the legacy-mode table after the removal of \<open>cali-a\<close>.
\<close>

definition misnamedTable :: Table where
  "misnamedTable =
     RemoveChainByName ''INPUT'' (UpdateChain \<lparr>Name = ''INPUT'', Rules = [rule1]\<rparr> testTable)"

definition retiredTable :: Table where
  "retiredTable = RemoveChainByName ''cali-a'' legacyTable"

text \<open>
  A fingerprint function that tells rules apart by their match, three rules, and a table
  in which the second rule of the two-rule chain \<open>cali-a\<close> has just been replaced, with a
  save command that still shows the chain as it was.
\<close>

definition matchFingerprint :: Fingerprint where
  "matchFingerprint features name rules i = concat (Match (rules ! i))"

definition ruleA :: Rule where
  "ruleA = \<lparr>Match = [''aaaa''], Action = AcceptAction\<rparr>"

definition ruleB :: Rule where
  "ruleB = \<lparr>Match = [''bbbb''], Action = AcceptAction\<rparr>"

definition ruleC :: Rule where
  "ruleC = \<lparr>Match = [''cccc''], Action = DropAction\<rparr>"

definition editedTable :: Table where
  "editedTable =
     UpdateChain \<lparr>Name = ''cali-a'', Rules = [ruleA, ruleC]\<rparr>
       (testTable\<lparr>chainNameToChain := [''cali-a'' \<mapsto> \<lparr>Name = ''cali-a'', Rules = [ruleA, ruleB]\<rparr>],
                  chainToDataplaneHashes := [(''cali-a'', [''aaaa'', ''bbbb''])],
                  dirtyInserts := [],
                  inSyncWithDataPlane := True\<rparr>)"

definition editedSave :: string where
  "editedSave =
     '':cali-a - [0:0]'' @ [newline]
     @ ''-A cali-a -m comment --comment '' @ quote @ ''cali:aaaa'' @ quote
       @ '' aaaa -j ACCEPT'' @ [newline]
     @ ''-A cali-a -m comment --comment '' @ quote @ ''cali:bbbb'' @ quote
       @ '' bbbb -j ACCEPT'' @ [newline]"

definition editedWorld :: World where
  "editedWorld =
     stillWorld\<lparr>saveRuns := (\<lambda>n. quietRun\<lparr>stdout := newClosableBuf editedSave\<rparr>)\<rparr>"

section \<open>Properties\<close>

subsection \<open>The parser of the save format\<close>

lemma append_line_not_declaration: "chainCreateRegexp l = Some c \<Longrightarrow> appendRegexp l = None"
  by (auto simp: chainCreateRegexp_def appendRegexp_def prefix_def split: if_splits)

lemma sinceDeclared_subset: "x \<in> set (sinceDeclared c ls) \<Longrightarrow> x \<in> set ls"
  by (auto simp: sinceDeclared_def dest: set_takeWhileD)

lemma sinceDeclared_snoc:
  "sinceDeclared c (ls @ [l]) = (if declares c l then [] else sinceDeclared c ls @ [l])"
  by (simp add: sinceDeclared_def)

lemma specHashes_snoc:
  "specHashes t (ls @ [l]) c =
     (if declares c l then Some []
      else if ruleOf c l then Some (elems (specHashes t ls c) @ [fingerprintOf t l])
      else specHashes t ls c)"
proof -
  have none: "filter (ruleOf c) (sinceDeclared c ls) = []"
    if "\<not> list_ex (\<lambda>l. declares c l \<or> ruleOf c l) ls"
    using that by (auto simp: filter_empty_conv list_ex_iff dest: sinceDeclared_subset)
  show ?thesis
    using none by (auto simp: specHashes_def sinceDeclared_snoc elems_def)
qed

lemma readLine_map_of:
  "map_of (readLine t l hs) c =
     (if declares c l then Some []
      else if ruleOf c l then Some (elems (map_of hs c) @ [fingerprintOf t l])
      else map_of hs c)"
  by (auto simp: readLine_def declares_def ruleOf_def fingerprintOf_def sentinel_def update_conv'
      Let_def dest: append_line_not_declaration split: option.splits)

lemma fold_readLine: "map_of (fold (readLine t) ls []) c = specHashes t ls c"
proof (induction ls rule: rev_induct)
  case Nil
  show ?case by (simp add: specHashes_def)
next
  case (snoc l ls)
  show ?case by (simp add: readLine_map_of specHashes_snoc snoc)
qed

lemma fold_readLine_distinct:
  "distinct (map fst hs) \<Longrightarrow> distinct (map fst (fold (readLine t) ls hs))"
proof (induction ls arbitrary: hs)
  case Nil
  then show ?case by simp
next
  case (Cons l ls)
  have "distinct (map fst (readLine t l hs))"
    using Cons.prems by (auto simp: readLine_def Let_def distinct_update split: option.splits)
  then show ?case using Cons.IH by simp
qed

lemma readHashesFrom_distinct: "readHashesFrom t r = Inr hashes \<Longrightarrow> distinct (map fst hashes)"
  by (auto simp: readHashesFrom_def Let_def fold_readLine_distinct split: option.splits)

text \<open>
  C1. Whatever the save command prints, \<open>readHashesFrom\<close> either fails with the
  scanner's error (an over-long line or a failed read) or returns a map that holds, for
  each chain, the ordered list of the fingerprints of its rule lines: a line beginning
  with \<open>:<chain>\<close> establishes an empty list for the chain, a line beginning with
  \<open>-A <chain>\<close> appends the capture of the first match of the comment pattern, else the
  non-empty sentinel \<open>OLD INSERT RULE\<close> when the legacy pattern matches, else the empty
  string; every other line is ignored.
\<close>

theorem readHashesFrom_fingerprints:
  "(case scanErr r of
      Some err \<Rightarrow> readHashesFrom t r = Inl err
    | None \<Rightarrow>
        (\<exists>hashes. readHashesFrom t r = Inr hashes
           \<and> distinct (map fst hashes)
           \<and> (\<forall>chain. map_of hashes chain = specHashes t (scanTokens r) chain)))
   \<and> sentinel = ''OLD INSERT RULE'' \<and> sentinel \<noteq> []"
  by (auto simp: readHashesFrom_def Let_def fold_readLine fold_readLine_distinct sentinel_def
      split: option.splits)

lemmas parser_evals =
  readHashesFrom_def testTable_def newClosableBuf_def scanTokens_def scanErr_def scannedLines_def
  MaxScanTokenSize_def newline_def dropCR_def readLine_def chainCreateRegexp_def appendRegexp_def
  nonSpace_def elems_def testOptions_def hashCommentAt_def hashAfterPrefix_def hashChar_def
  testOldInsert_def quote_def Let_def

theorem readHashesFrom_fingerprints_witness:
  "readHashesFrom testTable
     (newClosableBuf ('':F - [0:0]'' @ [newline] @ ''-A F -j felix-F'' @ [newline]))
     = Inr [(''F'', [''OLD INSERT RULE''])]
   \<and> specHashes testTable ['':F - [0:0]'', ''-A F -j felix-F''] ''F'' = Some [sentinel]"
proof -
  let ?r = "newClosableBuf ('':F - [0:0]'' @ [newline] @ ''-A F -j felix-F'' @ [newline])"
  have run: "readHashesFrom testTable ?r = Inr [(''F'', [''OLD INSERT RULE''])]"
    by (simp add: parser_evals)
  have ok: "scanErr ?r = None"
    by (simp add: parser_evals)
  have toks: "scanTokens ?r = ['':F - [0:0]'', ''-A F -j felix-F'']"
    by (simp add: parser_evals)
  have "\<exists>hashes. readHashesFrom testTable ?r = Inr hashes
           \<and> distinct (map fst hashes)
           \<and> (\<forall>chain. map_of hashes chain = specHashes testTable (scanTokens ?r) chain)"
    using readHashesFrom_fingerprints [where r = ?r and t = testTable] by (simp only: ok option.case)
  then have "map_of [(''F'', [''OLD INSERT RULE''])] ''F''
          = specHashes testTable ['':F - [0:0]'', ''-A F -j felix-F''] ''F''"
    unfolding run toks by blast
  then show ?thesis using run by (simp add: sentinel_def)
qed

text \<open>The hash extraction tests of \<open>table_test.go\<close>, run on the embedding.\<close>

lemma test_old_felix_rule_by_prefix:
  "readHashesFrom testTable (newClosableBuf (''-A FORWARD -j felix-FORWARD'' @ [newline]))
     = Inr [(''FORWARD'', [''OLD INSERT RULE''])]"
  by (simp add: parser_evals)

lemma test_old_felix_rule_by_special_case:
  "readHashesFrom testTable
     (newClosableBuf (''-A FORWARD -j an-old-rule'' @ [newline]
                      @ ''-A FORWARD -j ignore-me'' @ [newline]))
     = Inr [(''FORWARD'', [''OLD INSERT RULE'', []])]"
  by (simp add: parser_evals)

lemma test_multiple_chains:
  "readHashesFrom testTable
     (newClosableBuf
        (''-A cali-abcd -m comment --comment '' @ quote @ ''cali:wUHhoiAYhphO9Mso'' @ quote
           @ '' -j cali-FORWARD'' @ [newline]
         @ ''-A cali-abcd -m comment --comment '' @ quote @ ''cali:abcdefghij1234-_'' @ quote
           @ '' -j cali-FORWARD'' @ [newline]
         @ ''-A FORWARD --src 1.2.3.4'' @ [newline]
         @ ''-A FORWARD -m comment --comment '' @ quote @ ''cali:1234567890093213'' @ quote
           @ '' -j cali-FORWARD'' @ [newline]))
     = Inr [(''cali-abcd'', [''wUHhoiAYhphO9Mso'', ''abcdefghij1234-_'']),
            (''FORWARD'', [[], ''1234567890093213''])]"
  by (simp add: parser_evals)

subsection \<open>Iteration orders\<close>

lemma pick_set:
  "i < length xs \<Longrightarrow> set (take i xs @ drop (Suc i) xs) \<union> {xs ! i} = set xs"
proof -
  assume i: "i < length xs"
  have "set xs = set (take i xs @ xs ! i # drop (Suc i) xs)"
    using id_take_nth_drop [OF i] by simp
  then show ?thesis by auto
qed

lemma pick_distinct:
  "i < length xs \<Longrightarrow> distinct xs
     \<Longrightarrow> distinct (take i xs @ drop (Suc i) xs) \<and> xs ! i \<notin> set (take i xs @ drop (Suc i) xs)"
proof -
  assume i: "i < length xs" and d: "distinct xs"
  have "distinct (take i xs @ xs ! i # drop (Suc i) xs)"
    using id_take_nth_drop [OF i] d by simp
  then show ?thesis by auto
qed

lemma set_pickOrder: "set (pickOrder ks xs) = set xs"
proof (induction ks arbitrary: xs)
  case Nil
  show ?case by simp
next
  case (Cons k ks)
  show ?case
  proof (cases "xs = []")
    case True
    then show ?thesis by simp
  next
    case False
    then have i: "k mod length xs < length xs" by simp
    show ?thesis
      using False Cons.IH [of "take (k mod length xs) xs @ drop (Suc (k mod length xs)) xs"]
        pick_set [OF i]
      by (simp add: Let_def)
  qed
qed

lemma distinct_pickOrder: "distinct xs \<Longrightarrow> distinct (pickOrder ks xs)"
proof (induction ks arbitrary: xs)
  case Nil
  then show ?case by simp
next
  case (Cons k ks)
  show ?case
  proof (cases "xs = []")
    case True
    then show ?thesis by simp
  next
    case False
    then have i: "k mod length xs < length xs" by simp
    show ?thesis
      using False Cons.IH [of "take (k mod length xs) xs @ drop (Suc (k mod length xs)) xs"]
        pick_distinct [OF i Cons.prems]
      by (simp add: Let_def set_pickOrder)
  qed
qed

lemma pickOrder_Nil [simp]: "pickOrder ks [] = []"
  by (cases ks) simp_all

subsection \<open>The builder\<close>

lemma opened_WriteLine [simp]: "opened (WriteLine l b) = opened b"
  by (auto simp: opened_def WriteLine_def split: option.splits)

lemma opened_fold_WriteLine [simp]: "opened (fold WriteLine ls b) = opened b"
  by (induction ls arbitrary: b) simp_all

lemma written_WriteLine [simp]: "written (WriteLine l b) = written b"
  by (auto simp: WriteLine_def split: option.splits)

lemma written_fold_WriteLine [simp]: "written (fold WriteLine ls b) = written b"
  by (induction ls arbitrary: b) simp_all

lemma bufferLines_WriteLine: "opened b \<Longrightarrow> bufferLines (WriteLine l b) = bufferLines b @ [l]"
  by (auto simp: opened_def WriteLine_def bufferLines_def split: option.splits)

lemma bufferLines_fold_WriteLine:
  "opened b \<Longrightarrow> bufferLines (fold WriteLine ls b) = bufferLines b @ ls"
  by (induction ls arbitrary: b) (simp_all add: bufferLines_WriteLine)

lemma noEmpty_fold_WriteLine [simp]:
  "noEmptyTransaction (fold WriteLine ls b) = noEmptyTransaction b"
  by (simp add: noEmptyTransaction_def)

lemma EndTransaction_props:
  "bufferLines (EndTransaction b) = bufferLines b"
  "\<not> opened (EndTransaction b)"
  "noEmptyTransaction b \<Longrightarrow> noEmptyTransaction (EndTransaction b)"
  by (auto simp: EndTransaction_def bufferLines_def inputLines_def opened_def
      noEmptyTransaction_def split: option.splits)

lemma StartTransaction_props:
  "\<not> opened b \<Longrightarrow> bufferLines (StartTransaction n b) = bufferLines b"
  "opened (StartTransaction n b)"
  "noEmptyTransaction (StartTransaction n b) = noEmptyTransaction b"
  by (cases "current b"; auto simp: StartTransaction_def bufferLines_def opened_def
      noEmptyTransaction_def)+

lemma Reset_props: "bufferLines Reset = []" "\<not> opened Reset" "noEmptyTransaction Reset"
  by (simp_all add: Reset_def bufferLines_def inputLines_def opened_def noEmptyTransaction_def)

lemma Empty_iff: "noEmptyTransaction b \<Longrightarrow> Empty b \<longleftrightarrow> bufferLines b = []"
  by (cases "written b")
     (auto simp: Empty_def bufferLines_def inputLines_def noEmptyTransaction_def
       split: option.splits)

lemma closed_lines: "\<not> opened b \<Longrightarrow> inputLines (written b) = bufferLines b"
  by (cases "current b") (auto simp: bufferLines_def opened_def)

subsection \<open>The passes of \<open>applyUpdates\<close>\<close>

lemma flushPass_step:
  "flushPass fp t c (dirty, buf) =
     (if alreadyCorrect fp t c then removeAll c dirty else dirty,
      fold WriteLine (flushLines fp t c) buf)"
  by (auto simp: flushPass_def flushLines_def alreadyCorrect_def Let_def
      WriteForwardReference_def)

lemma fold_flushPass:
  "fold (flushPass fp t) order (dirty, buf) =
     (filter (\<lambda>c. \<not> (c \<in> set order \<and> alreadyCorrect fp t c)) dirty,
      fold WriteLine (concat (map (flushLines fp t) order)) buf)"
proof (induction order arbitrary: dirty buf)
  case Nil
  show ?case by simp
next
  case (Cons c order)
  have "filter (\<lambda>x. \<not> (x \<in> set order \<and> alreadyCorrect fp t x)) (removeAll c dirty)
        = filter (\<lambda>x. \<not> (x \<in> set (c # order) \<and> alreadyCorrect fp t x)) dirty"
    if "alreadyCorrect fp t c"
    using that by (induction dirty) auto
  moreover have "filter (\<lambda>x. \<not> (x \<in> set order \<and> alreadyCorrect fp t x)) dirty
        = filter (\<lambda>x. \<not> (x \<in> set (c # order) \<and> alreadyCorrect fp t x)) dirty"
    if "\<not> alreadyCorrect fp t c"
    using that by (induction dirty) auto
  ultimately show ?case
    by (simp add: flushPass_step Cons.IH)
qed

lemma updatePass_step:
  "updatePass fp t c (nh, buf) =
     (updateHashes fp t c nh, fold WriteLine (updateLines fp t c) buf)"
  by (auto simp: updatePass_def updateLines_def updateHashes_def Let_def split: option.splits)

lemma fold_updatePass:
  "fold (updatePass fp t) order (nh, buf) =
     (fold (updateHashes fp t) order nh,
      fold WriteLine (concat (map (updateLines fp t) order)) buf)"
  by (induction order arbitrary: nh buf) (simp_all add: updatePass_step)

lemma insertPass_step:
  "insertPass fp t c (nh, buf) =
     (insertHashes fp t c nh, fold WriteLine (insertLines fp t c) buf)"
  by (auto simp: insertPass_def insertLines_def insertHashes_def insertsInSync_def Let_def
      split_def)

lemma fold_insertPass:
  "fold (insertPass fp t) order (nh, buf) =
     (fold (insertHashes fp t) order nh,
      fold WriteLine (concat (map (insertLines fp t) order)) buf)"
  by (induction order arbitrary: nh buf) (simp_all add: insertPass_step)

lemma fold_deleteRefPass:
  "fold (deleteRefPass t) order buf =
     fold WriteLine (concat (map (deleteRefLines t) order)) buf"
  by (induction order arbitrary: buf)
     (simp_all add: deleteRefPass_def deleteRefLines_def WriteForwardReference_def)

lemma deletePass_step:
  "deletePass t c (nh, buf) = (deleteHashes t c nh, fold WriteLine (deleteLines t c) buf)"
  by (auto simp: deletePass_def deleteLines_def deleteHashes_def)

lemma fold_deletePass:
  "fold (deletePass t) order (nh, buf) =
     (fold (deleteHashes t) order nh,
      fold WriteLine (concat (map (deleteLines t) order)) buf)"
  by (induction order arbitrary: nh buf) (simp_all add: deletePass_step)

lemma map_of_fold_updateHashes:
  "map_of (fold (updateHashes fp t) order nh) c =
     (if c \<in> set order \<and> chainNameToChain t c \<noteq> None
      then map_option (\<lambda>chain. Some (RuleHashes fp (featureDetector t) chain))
             (chainNameToChain t c)
      else map_of nh c)"
  by (induction order arbitrary: nh)
     (auto simp: updateHashes_def update_conv' split: option.splits)

lemma map_of_fold_insertHashes:
  "map_of (fold (insertHashes fp t) order nh) c =
     (if c \<in> set order \<and> \<not> insertsInSync fp t c
      then Some (Some (fst (expectedHashesForInsertChain fp t c
                              (numEmptyStrings (map_of (chainToDataplaneHashes t) c)))))
      else map_of nh c)"
  by (induction order arbitrary: nh) (auto simp: insertHashes_def update_conv')

lemma map_of_fold_deleteHashes:
  "map_of (fold (deleteHashes t) order nh) c =
     (if c \<in> set order \<and> chainNameToChain t c = None then Some None else map_of nh c)"
  by (induction order arbitrary: nh) (auto simp: deleteHashes_def update_conv')

lemma distinct_fold_hashes:
  "distinct (map fst nh) \<Longrightarrow> distinct (map fst (fold (updateHashes fp t) order nh))"
  "distinct (map fst nh) \<Longrightarrow> distinct (map fst (fold (insertHashes fp t) order nh))"
  "distinct (map fst nh) \<Longrightarrow> distinct (map fst (fold (deleteHashes t) order nh))"
  by (induction order arbitrary: nh;
      simp add: updateHashes_def insertHashes_def deleteHashes_def distinct_update
        split: option.splits)+

subsection \<open>The input that \<open>applyUpdates\<close> builds\<close>

lemma buildInput_parts:
  "buildInput fp tw =
     ((builtDirty fp tw, builtHashes fp tw, builtBuffer fp tw), snd (buildInput fp tw))"
  by (simp add: builtDirty_def builtHashes_def builtBuffer_def)

lemma fold_flushPass_dirty:
  "fold (flushPass fp t) (pickOrder ks (dirtyChains t)) (dirtyChains t, buf) =
     (stillDirty fp t,
      fold WriteLine (concat (map (flushLines fp t) (pickOrder ks (dirtyChains t)))) buf)"
proof -
  have "filter (\<lambda>c. \<not> (c \<in> set (pickOrder ks (dirtyChains t)) \<and> alreadyCorrect fp t c))
          (dirtyChains t) = stillDirty fp t"
    unfolding stillDirty_def by (rule filter_cong) (auto simp: set_pickOrder)
  then show ?thesis by (simp only: fold_flushPass)
qed

lemma set_stillDirty:
  "set (stillDirty fp t) = {c \<in> set (dirtyChains t). \<not> alreadyCorrect fp t c}"
  by (simp add: stillDirty_def)

lemmas buildInput_unfold =
  buildInput_def iterOrder_def Let_def split_def fold_flushPass_dirty
  fold_updatePass fold_insertPass fold_deletePass fold_deleteRefPass

lemma builtDirty: "builtDirty fp (t, w) = stillDirty fp t"
  by (simp add: builtDirty_def buildInput_unfold)

lemma buildInput_world:
  "snd (buildInput fp (t, w)) = w\<lparr>iterCalls := iterCalls w + (if nftablesMode t then 5 else 4)\<rparr>"
  by (simp add: buildInput_def iterOrder_def Let_def split_def)

lemma builtHashes:
  "map_of (builtHashes fp (t, w)) c = newHashesOf fp t c"
  "distinct (map fst (builtHashes fp (t, w)))"
  by (auto simp: builtHashes_def buildInput_unfold
      map_of_fold_updateHashes map_of_fold_insertHashes map_of_fold_deleteHashes
      distinct_fold_hashes set_pickOrder newHashesOf_def)

lemma builtBuffer:
  "bufferLines (builtBuffer fp (t, w)) = writtenLines fp t w"
  "\<not> opened (builtBuffer fp (t, w))"
  "noEmptyTransaction (builtBuffer fp (t, w))"
  by (simp_all add: builtBuffer_def buildInput_unfold
      writtenLines_def visitOrder_def eval_nat_numeral
      EndTransaction_props StartTransaction_props Reset_props bufferLines_fold_WriteLine)

subsection \<open>\<open>applyUpdates\<close> as a whole\<close>

lemma stillDirty_legacy: "\<not> nftablesMode t \<Longrightarrow> stillDirty fp t = dirtyChains t"
  by (simp add: stillDirty_def alreadyCorrect_def)

lemma Empty_builtBuffer: "Empty (builtBuffer fp (t, w)) \<longleftrightarrow> writtenLines fp t w = []"
  by (simp add: Empty_iff builtBuffer)

lemma applyUpdates_eq:
  "applyUpdates fp (t, w) =
     (let w1 = w\<lparr>iterCalls := iterCalls w + (if nftablesMode t then 5 else 4)\<rparr>;
          t1 = t\<lparr>dirtyChains := stillDirty fp t\<rparr>;
          newHashes = builtHashes fp (t, w)
      in if Empty (builtBuffer fp (t, w)) then (None, clearDirty newHashes t1, w1)
         else
           (let w2 = w1\<lparr>restoreLog := restoreLog w @ [written (builtBuffer fp (t, w))]\<rparr>
            in if \<not> restoreRuns w (length (restoreLog w))
               then (Some ErrRestore, t1\<lparr>inSyncWithDataPlane := False\<rparr>, w2)
               else (None,
                     clearDirty newHashes
                       (t1\<lparr>lastWriteTime := nowReadings w (nowCalls w),
                           postWriteInterval := initialPostWriteInterval t\<rparr>),
                     w2\<lparr>nowCalls := Suc (nowCalls w)\<rparr>)))"
proof -
  have parts: "buildInput fp (t, w) =
      ((stillDirty fp t, builtHashes fp (t, w), builtBuffer fp (t, w)),
       w\<lparr>iterCalls := iterCalls w + (if nftablesMode t then 5 else 4)\<rparr>)"
    using buildInput_parts [of fp "(t, w)"] by (simp add: builtDirty buildInput_world)
  show ?thesis
    unfolding applyUpdates_def
    by (simp add: parts Let_def GetBytesAndReset_def timeNow_def)
qed

lemma map_of_storeHashes:
  "map_of (storeHashes (k, v) dp) c = (if c = k then v else map_of dp c)"
  by (cases v) (simp_all add: storeHashes_def update_conv' delete_conv')

lemma map_of_fold_storeHashes:
  "distinct (map fst nh)
     \<Longrightarrow> map_of (fold storeHashes nh dp) c = mergedHashes (map_of nh c) (map_of dp c)"
proof (induction nh arbitrary: dp)
  case Nil
  show ?case by (simp add: mergedHashes_def)
next
  case (Cons e nh)
  obtain k v where e: "e = (k, v)" by (cases e)
  have notin: "k \<notin> fst ` set nh" and d: "distinct (map fst nh)"
    using Cons.prems e by auto
  have none: "map_of nh k = None"
    using notin by (simp add: map_of_eq_None_iff)
  have "map_of (fold storeHashes (e # nh) dp) c
          = mergedHashes (map_of nh c) (map_of (storeHashes (k, v) dp) c)"
    using Cons.IH [OF d] by (simp add: e)
  also have "\<dots> = mergedHashes (map_of (e # nh) c) (map_of dp c)"
    using none by (cases v) (auto simp: e map_of_storeHashes mergedHashes_def)
  finally show ?case .
qed

lemma distinct_fold_storeHashes:
  "distinct (map fst dp) \<Longrightarrow> distinct (map fst (fold storeHashes nh dp))"
  by (induction nh arbitrary: dp)
     (auto simp: storeHashes_def distinct_update distinct_delete split: option.splits)

lemma clearDirty_cache:
  "map_of (chainToDataplaneHashes (clearDirty (builtHashes fp (t, w)) t')) c =
     mergedHashes (newHashesOf fp t c) (map_of (chainToDataplaneHashes t') c)"
  by (simp add: clearDirty_def map_of_fold_storeHashes builtHashes)

text \<open>
  C10. If the transaction accumulated during \<open>applyUpdates\<close> is empty, the restore
  command is not invoked and \<open>applyUpdates\<close> still succeeds: both dirty sets are
  cleared and the newly computed hashes are merged into the cache, while
  \<open>lastWriteTime\<close> and \<open>postWriteInterval\<close> are left unchanged.
\<close>

theorem applyUpdates_empty_transaction:
  assumes "Empty (builtBuffer fp (t, w))"
  shows "\<exists>t' w'. applyUpdates fp (t, w) = (None, t', w')
           \<and> restoreLog w' = restoreLog w
           \<and> dirtyChains t' = [] \<and> dirtyInserts t' = []
           \<and> chainToDataplaneHashes t'
               = fold storeHashes (builtHashes fp (t, w)) (chainToDataplaneHashes t)
           \<and> (\<forall>c. map_of (chainToDataplaneHashes t') c
                     = mergedHashes (newHashesOf fp t c) (map_of (chainToDataplaneHashes t) c))
           \<and> lastWriteTime t' = lastWriteTime t
           \<and> postWriteInterval t' = postWriteInterval t
           \<and> nowCalls w' = nowCalls w"
  using assms
  by (simp add: applyUpdates_eq Let_def clearDirty_cache) (simp add: clearDirty_def)

lemmas table_evals =
  testTable_def stillWorld_def testFingerprint_def nftTable_def failingWorld_def rule1_def
  noFeatures_def testOptions_def
  buildInput_def builtBuffer_def builtHashes_def builtDirty_def iterOrder_def
  flushPass_def updatePass_def insertPass_def deletePass_def deleteRefPass_def
  expectedHashesForInsertChain_def calculateRuleInsertHashes_def RuleHashes_def RuleHashesOf_def
  numEmptyStrings_def insertedRules_def elems_def len_def ruleDelta_def commentFrag_def
  StartTransaction_def EndTransaction_def WriteLine_def WriteForwardReference_def Reset_def
  Empty_def GetBytesAndReset_def
  applyUpdates_def clearDirty_def storeHashes_def timeNow_def Let_def

theorem applyUpdates_empty_transaction_witness:
  "Empty (builtBuffer testFingerprint (testTable, stillWorld))
   \<and> fst (applyUpdates testFingerprint (testTable, stillWorld)) = None
   \<and> chainToDataplaneHashes (fst (snd (applyUpdates testFingerprint (testTable, stillWorld))))
       = [(''INPUT'', []), (''FORWARD'', []), (''OUTPUT'', [])]
   \<and> dirtyInserts (fst (snd (applyUpdates testFingerprint (testTable, stillWorld)))) = []
   \<and> restoreLog (snd (snd (applyUpdates testFingerprint (testTable, stillWorld)))) = []"
proof -
  have e: "Empty (builtBuffer testFingerprint (testTable, stillWorld))"
    by (simp add: table_evals)
  have c: "fold storeHashes (builtHashes testFingerprint (testTable, stillWorld))
             (chainToDataplaneHashes testTable)
           = [(''INPUT'', []), (''FORWARD'', []), (''OUTPUT'', [])]"
    by (simp add: table_evals)
  have l: "restoreLog stillWorld = []"
    by (simp add: stillWorld_def)
  from applyUpdates_empty_transaction [OF e] show ?thesis
    using e c l by auto
qed

text \<open>
  C2 (as amended). When the restore command fails, \<open>applyUpdates\<close> takes the error return
  before the dirty sets are cleared: the dirty inserts and the cache are unchanged, the
  dirty chains are unchanged in legacy mode and lose, in nftables mode, only the chains
  that the first pass found already correct, and the in-sync flag is set false.  When
  \<open>applyUpdates\<close> succeeds the dirty sets are cleared, and then either the transaction
  was empty or the restore command accepted it.
\<close>

theorem applyUpdates_restore_failure:
  "(applyUpdates fp (t, w) = (Some err, t', w') \<longrightarrow>
      dirtyInserts t' = dirtyInserts t
      \<and> dirtyChains t' = stillDirty fp t
      \<and> (\<not> nftablesMode t \<longrightarrow> dirtyChains t' = dirtyChains t)
      \<and> chainToDataplaneHashes t' = chainToDataplaneHashes t
      \<and> \<not> inSyncWithDataPlane t'
      \<and> \<not> Empty (builtBuffer fp (t, w))
      \<and> \<not> restoreRuns w (length (restoreLog w))
      \<and> restoreLog w' = restoreLog w @ [written (builtBuffer fp (t, w))])
   \<and> (applyUpdates fp (t, w) = (None, t', w') \<longrightarrow>
      dirtyInserts t' = [] \<and> dirtyChains t' = []
      \<and> (Empty (builtBuffer fp (t, w)) \<and> restoreLog w' = restoreLog w
          \<or> restoreRuns w (length (restoreLog w))
            \<and> restoreLog w' = restoreLog w @ [written (builtBuffer fp (t, w))]))"
  by (auto simp: applyUpdates_eq Let_def clearDirty_def stillDirty_legacy split: if_splits)

theorem applyUpdates_restore_failure_witness:
  "fst (applyUpdates testFingerprint (legacyTable, failingWorld)) = Some ErrRestore
   \<and> dirtyChains (fst (snd (applyUpdates testFingerprint (legacyTable, failingWorld))))
       = [''cali-a'', ''cali-b'']
   \<and> dirtyInserts (fst (snd (applyUpdates testFingerprint (legacyTable, failingWorld)))) = []
   \<and> \<not> inSyncWithDataPlane (fst (snd (applyUpdates testFingerprint (legacyTable, failingWorld))))
   \<and> fst (applyUpdates testFingerprint (legacyTable, stillWorld)) = None
   \<and> dirtyChains (fst (snd (applyUpdates testFingerprint (legacyTable, stillWorld)))) = []"
proof -
  have r1: "fst (applyUpdates testFingerprint (legacyTable, failingWorld)) = Some ErrRestore"
    by (simp add: legacyTable_def table_evals)
  then obtain t1 w1 where
    run1: "applyUpdates testFingerprint (legacyTable, failingWorld) = (Some ErrRestore, t1, w1)"
    by (cases "applyUpdates testFingerprint (legacyTable, failingWorld)") auto
  have r2: "fst (applyUpdates testFingerprint (legacyTable, stillWorld)) = None"
    by (simp add: legacyTable_def table_evals)
  then obtain t2 w2 where
    run2: "applyUpdates testFingerprint (legacyTable, stillWorld) = (None, t2, w2)"
    by (cases "applyUpdates testFingerprint (legacyTable, stillWorld)") auto
  have legacy: "\<not> nftablesMode legacyTable"
    and dirty: "dirtyChains legacyTable = [''cali-a'', ''cali-b'']" "dirtyInserts legacyTable = []"
    by (simp_all add: legacyTable_def nftTable_def)
  have "dirtyChains t1 = dirtyChains legacyTable \<and> dirtyInserts t1 = dirtyInserts legacyTable
        \<and> \<not> inSyncWithDataPlane t1"
    using applyUpdates_restore_failure
      [of testFingerprint legacyTable failingWorld ErrRestore t1 w1] run1 legacy
    by blast
  moreover have "dirtyChains t2 = []"
    using applyUpdates_restore_failure
      [of testFingerprint legacyTable stillWorld ErrRestore t2 w2] run2
    by blast
  ultimately show ?thesis
    using run1 run2 dirty by simp
qed

text \<open>
  The claim as stated fails in nftables mode: \<open>cali-a\<close>, found already correct by the
  first pass, has left the dirty chains when the restore command fails on the rest.
\<close>

theorem applyUpdates_restore_failure_counterexample:
  "fst (applyUpdates testFingerprint (nftTable, failingWorld)) = Some ErrRestore
   \<and> dirtyChains nftTable = [''cali-a'', ''cali-b'']
   \<and> dirtyChains (fst (snd (applyUpdates testFingerprint (nftTable, failingWorld))))
       = [''cali-b'']"
  by (simp add: table_evals)

subsection \<open>Expected hashes of an insertion chain\<close>

lemma numEmptyStrings_count:
  "numEmptyStrings s = length (filter (\<lambda>h. h = []) (elems s))"
proof -
  have "fold (\<lambda>s count. if s = [] then count + 1 else count) xs k
          = k + length (filter (\<lambda>h. h = []) xs)" for xs :: "string list" and k :: nat
    by (induction xs arbitrary: k) auto
  then show ?thesis by (simp add: numEmptyStrings_def)
qed

lemma fold_place_length:
  "length (fold (\<lambda>i all. all[i + off := ours ! i]) is base) = length base"
  by (induction "is" arbitrary: base) auto

lemma fold_place_nth:
  "k \<le> length ours \<Longrightarrow> off + length ours \<le> length base \<Longrightarrow> j < length base
     \<Longrightarrow> fold (\<lambda>i all. all[i + off := ours ! i]) [0..<k] base ! j
         = (if off \<le> j \<and> j < off + k then ours ! (j - off) else base ! j)"
proof (induction k)
  case 0
  show ?case by auto
next
  case (Suc k)
  have len: "j < length (fold (\<lambda>i all. all[i + off := ours ! i]) [0..<k] base)"
    using Suc.prems by (simp add: fold_place_length)
  show ?case
    using Suc len by (auto simp: nth_list_update fold_place_length)
qed

lemma expectedHashes_closed_form:
  "expectedHashesForInsertChain fp t c n =
     (let ours = calculateRuleInsertHashes fp c (insertedRules t c) (featureDetector t)
      in (if insertMode t = ''append'' then replicate n [] @ ours else ours @ replicate n [],
          ours))"
proof -
  define ours where "ours = calculateRuleInsertHashes fp c (insertedRules t c) (featureDetector t)"
  define m where "m = length (insertedRules t c)"
  have lo: "length ours = m"
    by (simp add: ours_def m_def calculateRuleInsertHashes_def RuleHashes_def)
  have placed: "fold (\<lambda>i all. all[i + off := ours ! i]) [0..<m] (replicate (m + n) [])
      = (if off = n then replicate n [] @ ours else ours @ replicate n [])"
    if "off = n \<or> off = 0" for off
  proof (rule nth_equalityI)
    show "length (fold (\<lambda>i all. all[i + off := ours ! i]) [0..<m] (replicate (m + n) []))
        = length (if off = n then replicate n [] @ ours else ours @ replicate n [])"
      by (simp add: fold_place_length lo)
  next
    fix j
    assume "j < length (fold (\<lambda>i all. all[i + off := ours ! i]) [0..<m] (replicate (m + n) []))"
    then have j: "j < length (replicate (m + n) ([]::string))" by (simp add: fold_place_length)
    have off: "off + length ours \<le> length (replicate (m + n) ([]::string))"
      using that by (auto simp: lo)
    have k: "m \<le> length ours" by (simp add: lo)
    show "fold (\<lambda>i all. all[i + off := ours ! i]) [0..<m] (replicate (m + n) []) ! j
        = (if off = n then replicate n [] @ ours else ours @ replicate n []) ! j"
      using that j fold_place_nth [OF k off j]
      by (auto simp: nth_append lo)
  qed
  have "expectedHashesForInsertChain fp t c n =
      (fold (\<lambda>i all. all[i + (if insertMode t = ''append'' then n else 0) := ours ! i])
         [0..<m] (replicate (m + n) []), ours)"
    by (simp add: expectedHashesForInsertChain_def Let_def ours_def [symmetric] lo
        m_def [symmetric])
  also have "\<dots> = (if insertMode t = ''append'' then replicate n [] @ ours
                    else ours @ replicate n [], ours)"
    using placed [of n] placed [of 0] by auto
  finally show ?thesis by (simp add: Let_def ours_def)
qed

subsection \<open>What a reload marks dirty\<close>

lemma all_empty_replicate:
  "hs = replicate (length (filter (\<lambda>h. h = []) hs)) [] \<longleftrightarrow> (\<forall>h \<in> set hs. h = [])"
  for hs :: "string list"
proof
  assume eq: "hs = replicate (length (filter (\<lambda>h. h = []) hs)) []"
  show "\<forall>h \<in> set hs. h = []"
  proof
    fix h
    assume "h \<in> set hs"
    then have "h \<in> set (replicate (length (filter (\<lambda>h. h = []) hs)) ([]::string))"
      using eq by simp
    then show "h = []" by simp
  qed
next
  assume all: "\<forall>h \<in> set hs. h = []"
  then have "filter (\<lambda>h. h = []) hs = hs" by (simp add: filter_id_conv)
  moreover have "hs = replicate (length hs) []"
    using all by (induction hs) auto
  ultimately show "hs = replicate (length (filter (\<lambda>h. h = []) hs)) []" by simp
qed

lemma RuleHashes_length [simp]: "length (RuleHashes fp f c) = length (Rules c)"
  by (simp add: RuleHashes_def)

lemma insertHashes_length [simp]:
  "length (calculateRuleInsertHashes fp c rs f) = length rs"
  by (simp add: calculateRuleInsertHashes_def)

lemma unexpectedInserts_iff:
  "unexpectedInserts fp dp t c \<longleftrightarrow>
     elems (map_of dp c)
       \<noteq> fst (expectedHashesForInsertChain fp t c (numEmptyStrings (map_of dp c)))"
proof (cases "insertedRules t c = []")
  case True
  have ours: "calculateRuleInsertHashes fp c [] (featureDetector t) = []"
    by (simp add: calculateRuleInsertHashes_def RuleHashes_def)
  show ?thesis
    using True all_empty_replicate [of "elems (map_of dp c)"]
    by (auto simp: unexpectedInserts_def expectedHashes_closed_form Let_def ours
        numEmptyStrings_count list_ex_iff)
next
  case False
  then have ne: "calculateRuleInsertHashes fp c (insertedRules t c) (featureDetector t) \<noteq> []"
    using insertHashes_length [of fp c "insertedRules t c" "featureDetector t"]
    by (metis length_0_conv)
  show ?thesis
  proof (cases "map_of dp c")
    case None
    then show ?thesis
      using False ne
      by (auto simp: unexpectedInserts_def expectedHashes_closed_form Let_def elems_def)
  next
    case (Some hs)
    then show ?thesis
      using False by (auto simp: unexpectedInserts_def Let_def elems_def)
  qed
qed

lemma set_setAdd [simp]: "set (setAdd x s) = insert x (set s)"
  by (auto simp: setAdd_def)

lemma distinct_setAdd [simp]: "distinct (setAdd x s) = distinct s"
  by (auto simp: setAdd_def)

lemma frame_simps [simp]:
  "insertedRules (t\<lparr>dirtyInserts := a\<rparr>) = insertedRules t"
  "insertedRules (t\<lparr>dirtyChains := b\<rparr>) = insertedRules t"
  "expectedHashesForInsertChain fp (t\<lparr>dirtyInserts := a\<rparr>) = expectedHashesForInsertChain fp t"
  "expectedHashesForInsertChain fp (t\<lparr>dirtyChains := b\<rparr>) = expectedHashesForInsertChain fp t"
  "unexpectedInserts fp dp (t\<lparr>dirtyInserts := a\<rparr>) = unexpectedInserts fp dp t"
  "unexpectedInserts fp dp (t\<lparr>dirtyChains := b\<rparr>) = unexpectedInserts fp dp t"
  by (auto simp: insertedRules_def expectedHashesForInsertChain_def unexpectedInserts_def
      fun_eq_iff Let_def)

lemma checkChain_eq:
  "checkChain fp dp (c, e) t =
     t\<lparr>dirtyInserts :=
          (if \<not> isDirty t c \<and> \<not> ourChainsRegexp t c \<and> unexpectedInserts fp dp t c
           then setAdd c (dirtyInserts t) else dirtyInserts t),
       dirtyChains :=
          (if \<not> isDirty t c \<and> ourChainsRegexp t c \<and> map_of dp c \<noteq> Some e
           then setAdd c (dirtyChains t) else dirtyChains t)\<rparr>"
  by (auto simp: checkChain_def isDirty_def unexpectedInserts_def Let_def split_def)

lemma scanChain_eq:
  "scanChain (c, hs) t =
     t\<lparr>dirtyInserts :=
          (if \<not> isDirty t c \<and> map_of (chainToDataplaneHashes t) c = None
              \<and> \<not> ourChainsRegexp t c \<and> list_ex (\<lambda>h. h \<noteq> []) hs
           then setAdd c (dirtyInserts t) else dirtyInserts t),
       dirtyChains :=
          (if \<not> isDirty t c \<and> map_of (chainToDataplaneHashes t) c = None
              \<and> ourChainsRegexp t c
           then setAdd c (dirtyChains t) else dirtyChains t)\<rparr>"
  by (auto simp: scanChain_def isDirty_def)

lemma fold_checkChain_frame:
  "\<exists>di dc. fold (checkChain fp dp) es t = t\<lparr>dirtyInserts := di, dirtyChains := dc\<rparr>"
proof (induction es arbitrary: t)
  case Nil
  have "t = t\<lparr>dirtyInserts := dirtyInserts t, dirtyChains := dirtyChains t\<rparr>" by simp
  then show ?case by (metis fold_simps(1))
next
  case (Cons e es)
  obtain c x where e: "e = (c, x)" by (cases e)
  obtain di dc where "fold (checkChain fp dp) es (checkChain fp dp (c, x) t)
      = (checkChain fp dp (c, x) t)\<lparr>dirtyInserts := di, dirtyChains := dc\<rparr>"
    using Cons.IH by blast
  then have "fold (checkChain fp dp) (e # es) t = t\<lparr>dirtyInserts := di, dirtyChains := dc\<rparr>"
    by (simp add: e checkChain_eq)
  then show ?case by blast
qed

lemma fold_scanChain_frame:
  "\<exists>di dc. fold scanChain es t = t\<lparr>dirtyInserts := di, dirtyChains := dc\<rparr>"
proof (induction es arbitrary: t)
  case Nil
  have "t = t\<lparr>dirtyInserts := dirtyInserts t, dirtyChains := dirtyChains t\<rparr>" by simp
  then show ?case by (metis fold_simps(1))
next
  case (Cons e es)
  obtain c x where e: "e = (c, x)" by (cases e)
  obtain di dc where "fold scanChain es (scanChain (c, x) t)
      = (scanChain (c, x) t)\<lparr>dirtyInserts := di, dirtyChains := dc\<rparr>"
    using Cons.IH by blast
  then have "fold scanChain (e # es) t = t\<lparr>dirtyInserts := di, dirtyChains := dc\<rparr>"
    by (simp add: e scanChain_eq)
  then show ?case by blast
qed

lemma fold_checkChain_marks:
  "x \<in> set (dirtyInserts (fold (checkChain fp dp) es t)) \<longleftrightarrow>
     x \<in> set (dirtyInserts t)
     \<or> (x \<in> fst ` set es \<and> \<not> isDirty t x \<and> \<not> ourChainsRegexp t x
        \<and> unexpectedInserts fp dp t x)"
  "x \<in> set (dirtyChains (fold (checkChain fp dp) es t)) \<longleftrightarrow>
     x \<in> set (dirtyChains t)
     \<or> (\<not> isDirty t x \<and> ourChainsRegexp t x \<and> (\<exists>e. (x, e) \<in> set es \<and> map_of dp x \<noteq> Some e))"
proof (induction es arbitrary: t)
  case Nil
  {
    case 1 show ?case by simp
  next
    case 2 show ?case by simp
  }
next
  case (Cons e es)
  obtain c v where e: "e = (c, v)" by (cases e)
  {
    case 1
    show ?case
      unfolding e fold_simps Cons.IH(1)
      by (auto simp: checkChain_eq isDirty_def setContains_def)
  next
    case 2
    show ?case
      unfolding e fold_simps Cons.IH(2)
      by (auto simp: checkChain_eq isDirty_def setContains_def)
  }
qed

lemma fold_scanChain_marks:
  "x \<in> set (dirtyInserts (fold scanChain es t)) \<longleftrightarrow>
     x \<in> set (dirtyInserts t)
     \<or> (\<not> isDirty t x \<and> map_of (chainToDataplaneHashes t) x = None \<and> \<not> ourChainsRegexp t x
        \<and> (\<exists>hs. (x, hs) \<in> set es \<and> list_ex (\<lambda>h. h \<noteq> []) hs))"
  "x \<in> set (dirtyChains (fold scanChain es t)) \<longleftrightarrow>
     x \<in> set (dirtyChains t)
     \<or> (x \<in> fst ` set es \<and> \<not> isDirty t x \<and> map_of (chainToDataplaneHashes t) x = None
        \<and> ourChainsRegexp t x)"
proof (induction es arbitrary: t)
  case Nil
  {
    case 1 show ?case by simp
  next
    case 2 show ?case by simp
  }
next
  case (Cons e es)
  obtain c v where e: "e = (c, v)" by (cases e)
  {
    case 1
    show ?case
      unfolding e fold_simps Cons.IH(1)
      by (auto simp: scanChain_eq isDirty_def setContains_def)
  next
    case 2
    show ?case
      unfolding e fold_simps Cons.IH(2)
      by (auto simp: scanChain_eq isDirty_def setContains_def)
  }
qed

lemma markDirty_frame:
  "\<exists>di dc. markDirty fp dp t =
     t\<lparr>dirtyInserts := di, dirtyChains := dc, chainToDataplaneHashes := dp,
       inSyncWithDataPlane := True\<rparr>"
proof -
  obtain di dc where 1: "fold (checkChain fp dp) (chainToDataplaneHashes t) t
      = t\<lparr>dirtyInserts := di, dirtyChains := dc\<rparr>"
    using fold_checkChain_frame by blast
  obtain di' dc' where 2: "fold scanChain dp (t\<lparr>dirtyInserts := di, dirtyChains := dc\<rparr>)
      = t\<lparr>dirtyInserts := di, dirtyChains := dc\<rparr>\<lparr>dirtyInserts := di', dirtyChains := dc'\<rparr>"
    using fold_scanChain_frame by blast
  have "markDirty fp dp t = t\<lparr>dirtyInserts := di', dirtyChains := dc',
      chainToDataplaneHashes := dp, inSyncWithDataPlane := True\<rparr>"
    by (simp add: markDirty_def Let_def 1 2)
  then show ?thesis by blast
qed

lemma key_present: "(x, e) \<in> set es \<Longrightarrow> x \<in> fst ` set es"
  by force

lemma markDirty_marks:
  "x \<in> set (dirtyInserts (markDirty fp dp t)) \<longleftrightarrow>
     x \<in> set (dirtyInserts t)
     \<or> (\<not> isDirty t x \<and> \<not> ourChainsRegexp t x
        \<and> (if x \<in> fst ` set (chainToDataplaneHashes t) then unexpectedInserts fp dp t x
            else (\<exists>hs. (x, hs) \<in> set dp \<and> list_ex (\<lambda>h. h \<noteq> []) hs)))"
  "x \<in> set (dirtyChains (markDirty fp dp t)) \<longleftrightarrow>
     x \<in> set (dirtyChains t)
     \<or> (\<not> isDirty t x \<and> ourChainsRegexp t x
        \<and> (if x \<in> fst ` set (chainToDataplaneHashes t)
            then (\<exists>e. (x, e) \<in> set (chainToDataplaneHashes t) \<and> map_of dp x \<noteq> Some e)
            else x \<in> fst ` set dp))"
proof -
  let ?t1 = "fold (checkChain fp dp) (chainToDataplaneHashes t) t"
  obtain di dc where 1: "?t1 = t\<lparr>dirtyInserts := di, dirtyChains := dc\<rparr>"
    using fold_checkChain_frame by blast
  have fields: "ourChainsRegexp ?t1 = ourChainsRegexp t"
    "chainToDataplaneHashes ?t1 = chainToDataplaneHashes t"
    by (simp_all add: 1)
  have none: "map_of (chainToDataplaneHashes t) x = None
      \<longleftrightarrow> x \<notin> fst ` set (chainToDataplaneHashes t)"
    by (simp add: map_of_eq_None_iff)
  have dirt: "isDirty ?t1 x \<longleftrightarrow>
      isDirty t x \<or> (x \<in> fst ` set (chainToDataplaneHashes t) \<and>
        (x \<in> set (dirtyInserts ?t1) \<or> x \<in> set (dirtyChains ?t1)))"
    unfolding isDirty_def setContains_def
    by (auto simp: fold_checkChain_marks isDirty_def setContains_def) force+
  have i: "dirtyInserts (markDirty fp dp t) = dirtyInserts (fold scanChain dp ?t1)"
    and c: "dirtyChains (markDirty fp dp t) = dirtyChains (fold scanChain dp ?t1)"
    by (simp_all add: markDirty_def Let_def)
  show "x \<in> set (dirtyInserts (markDirty fp dp t)) \<longleftrightarrow>
     x \<in> set (dirtyInserts t)
     \<or> (\<not> isDirty t x \<and> \<not> ourChainsRegexp t x
        \<and> (if x \<in> fst ` set (chainToDataplaneHashes t) then unexpectedInserts fp dp t x
            else (\<exists>hs. (x, hs) \<in> set dp \<and> list_ex (\<lambda>h. h \<noteq> []) hs)))"
    unfolding i fold_scanChain_marks fields none dirt
    by (auto simp: fold_checkChain_marks)
  show "x \<in> set (dirtyChains (markDirty fp dp t)) \<longleftrightarrow>
     x \<in> set (dirtyChains t)
     \<or> (\<not> isDirty t x \<and> ourChainsRegexp t x
        \<and> (if x \<in> fst ` set (chainToDataplaneHashes t)
            then (\<exists>e. (x, e) \<in> set (chainToDataplaneHashes t) \<and> map_of dp x \<noteq> Some e)
            else x \<in> fst ` set dp))"
    unfolding c fold_scanChain_marks fields none dirt
    by (auto simp: fold_checkChain_marks dest: key_present)
qed

subsection \<open>The reschedule time\<close>

lemma sle_iff_not_sless: "word_sle a b \<longleftrightarrow> \<not> word_sless b a"
  by (simp add: word_sle_eq word_sless_alt not_less)

text \<open>
  C8 (as amended). When \<open>Apply\<close> succeeds it returns one millisecond if the post-write
  interval is below one hour and its time left is already zero or less; otherwise the
  smaller of the time left of the refresh interval (when one is configured) and the time
  left of the post-write interval (when it is below one hour), and zero when neither
  applies.  The time left of the refresh interval is not clamped.
\<close>

theorem Apply_reschedule:
  assumes "Apply fp (t, w) = (Inr d, t', w')"
  shows "d = (let now = nowReadings w (nowCalls w);
                  refreshLeft = refreshInterval t' - Sub now (lastReadTime t');
                  postWriteLeft = Sub (Add (lastWriteTime t') (postWriteInterval t')) now;
                  refreshOn = word_sless 0 (refreshInterval t');
                  postWriteOn = word_sless (postWriteInterval t') Hour
              in if postWriteOn \<and> word_sle postWriteLeft 0 then 1 * Millisecond
                 else if refreshOn \<and> postWriteOn
                   then (if word_sless postWriteLeft refreshLeft then postWriteLeft
                         else refreshLeft)
                 else if refreshOn then refreshLeft
                 else if postWriteOn then postWriteLeft
                 else 0)"
proof -
  have "d = rescheduleAfter (nowReadings w (nowCalls w)) t'"
    using assms
    by (auto simp: Apply_def timeNow_def Let_def split: prod.splits option.splits)
  then show ?thesis
    by (auto simp: rescheduleAfter_def Let_def sle_iff_not_sless)
qed

lemma applyRetrying_done:
  "fst (reloadIfNeeded fp tw) = None
     \<Longrightarrow> fst (applyUpdates fp (snd (reloadIfNeeded fp tw))) = None
     \<Longrightarrow> applyRetrying fp n tw = (None, snd (applyUpdates fp (snd (reloadIfNeeded fp tw))))"
  by (cases n; cases "reloadIfNeeded fp tw";
      cases "applyUpdates fp (snd (reloadIfNeeded fp tw))") auto

lemma Apply_done:
  "fst (applyRetrying fp 10 (checkTimers (nowReadings w (nowCalls w)) t,
          w\<lparr>nowCalls := Suc (nowCalls w)\<rparr>)) = None
     \<Longrightarrow> Apply fp (t, w) =
         (Inr (rescheduleAfter (nowReadings w (nowCalls w))
                 (fst (snd (applyRetrying fp 10 (checkTimers (nowReadings w (nowCalls w)) t,
                               w\<lparr>nowCalls := Suc (nowCalls w)\<rparr>))))),
          snd (applyRetrying fp 10 (checkTimers (nowReadings w (nowCalls w)) t,
                 w\<lparr>nowCalls := Suc (nowCalls w)\<rparr>)))"
  by (cases "applyRetrying fp 10 (checkTimers (nowReadings w (nowCalls w)) t,
          w\<lparr>nowCalls := Suc (nowCalls w)\<rparr>)")
     (auto simp: Apply_def timeNow_def Let_def)

lemmas apply_evals =
  checkTimers_def postWriteBackoff.simps backoffDue_def InvalidateDataplaneCache_def
  Sub_def Add_def Hour_def Millisecond_def minPostWriteInterval_def zeroTime_def
  reloadIfNeeded_def loadDataplaneState_def getHashesFromDataplane_def
  attemptToGetHashesFromDataplane_def diagnosticSave_def rescheduleAfter_def specReschedule_def
  idleTable_def worldAtTenSeconds_def quietRun_def word_sle_eq word_sless_alt

lemma idle_timers:
  "checkTimers 10000000000 (idleTable\<lparr>refreshInterval := r\<rparr>) = idleTable\<lparr>refreshInterval := r\<rparr>"
  if "r = 0 \<or> r = 10000000000"
  using that by (auto simp: apply_evals table_evals)

lemma idle_Apply:
  "Apply testFingerprint (idleTable\<lparr>refreshInterval := r\<rparr>, worldAtTenSeconds) =
     (Inr (rescheduleAfter 10000000000 (idleTable\<lparr>refreshInterval := r\<rparr>)),
      idleTable\<lparr>refreshInterval := r\<rparr>,
      worldAtTenSeconds\<lparr>nowCalls := 1, iterCalls := 4\<rparr>)"
  if r: "r = 0 \<or> r = 10000000000"
proof -
  let ?t = "idleTable\<lparr>refreshInterval := r\<rparr>"
  let ?w = "worldAtTenSeconds\<lparr>nowCalls := Suc (nowCalls worldAtTenSeconds)\<rparr>"
  have now: "nowReadings worldAtTenSeconds (nowCalls worldAtTenSeconds) = 10000000000"
    by (simp add: worldAtTenSeconds_def)
  have 1: "reloadIfNeeded testFingerprint (?t, ?w) = (None, ?t, ?w)"
    by (simp add: reloadIfNeeded_def idleTable_def)
  have 2: "applyUpdates testFingerprint (?t, ?w)
      = (None, ?t, worldAtTenSeconds\<lparr>nowCalls := 1, iterCalls := 4\<rparr>)"
    by (simp add: idleTable_def worldAtTenSeconds_def table_evals)
  have 3: "applyRetrying testFingerprint 10 (?t, ?w)
      = (None, ?t, worldAtTenSeconds\<lparr>nowCalls := 1, iterCalls := 4\<rparr>)"
    using applyRetrying_done [of testFingerprint "(?t, ?w)" 10] by (simp add: 1 2)
  show ?thesis
    using Apply_done [of testFingerprint worldAtTenSeconds "idleTable\<lparr>refreshInterval := r\<rparr>"]
    by (simp add: now idle_timers [OF r] 3)
qed

theorem Apply_reschedule_witness:
  "fst (Apply testFingerprint (idleTable\<lparr>refreshInterval := 0\<rparr>, worldAtTenSeconds))
     = Inr 41200000000"
proof -
  have run: "Apply testFingerprint (idleTable\<lparr>refreshInterval := 0\<rparr>, worldAtTenSeconds) =
     (Inr (rescheduleAfter 10000000000 (idleTable\<lparr>refreshInterval := 0\<rparr>)),
      idleTable\<lparr>refreshInterval := 0\<rparr>,
      worldAtTenSeconds\<lparr>nowCalls := 1, iterCalls := 4\<rparr>)"
    by (rule idle_Apply) simp
  have "rescheduleAfter 10000000000 (idleTable\<lparr>refreshInterval := 0\<rparr>) = 41200000000"
    using Apply_reschedule [OF run]
    by (simp add: apply_evals table_evals)
  then show ?thesis by (simp add: run)
qed

text \<open>
  The claim as stated fails when the refresh interval runs out at the very instant of
  the call: no reload is forced, the time left of the refresh interval is zero, and
  \<open>Apply\<close> returns zero, not the millisecond that a clamped minimum would be.
\<close>

theorem Apply_reschedule_counterexample:
  "fst (Apply testFingerprint (idleTable, worldAtTenSeconds)) = Inr 0
   \<and> specReschedule 10000000000
        (fst (snd (Apply testFingerprint (idleTable, worldAtTenSeconds)))) = 1000000"
proof -
  have same: "idleTable\<lparr>refreshInterval := 10000000000\<rparr> = idleTable"
    by (simp add: idleTable_def)
  have run: "Apply testFingerprint (idleTable, worldAtTenSeconds) =
     (Inr (rescheduleAfter 10000000000 idleTable), idleTable,
      worldAtTenSeconds\<lparr>nowCalls := 1, iterCalls := 4\<rparr>)"
    using idle_Apply [of 10000000000] by (simp add: same)
  show ?thesis
    unfolding run by (simp add: apply_evals table_evals)
qed

subsection \<open>The post-write interval\<close>

lemma postWriteBackoff_char:
  "\<exists>k. (\<forall>j<k. backoffDue now (lastWriteTime (fst p)) (postWriteInterval (fst p) * 2 ^ j))
      \<and> \<not> backoffDue now (lastWriteTime (fst p)) (postWriteInterval (fst p) * 2 ^ k)
      \<and> postWriteBackoff now p =
          ((fst p)\<lparr>postWriteInterval := postWriteInterval (fst p) * 2 ^ k,
                   inSyncWithDataPlane := inSyncWithDataPlane (fst p) \<and> (k = 0 \<or> snd p)\<rparr>,
           snd p \<or> 0 < k)"
proof (induction now p rule: postWriteBackoff.induct)
  case (1 now t invalidated)
  show ?case
  proof (cases "backoffDue now (lastWriteTime t) (postWriteInterval t)")
    case False
    have "postWriteBackoff now (t, invalidated) = (t, invalidated)"
      using False by simp
    moreover have "t = t\<lparr>postWriteInterval := postWriteInterval t * 2 ^ 0,
        inSyncWithDataPlane := inSyncWithDataPlane t \<and> (0 = (0::nat) \<or> invalidated)\<rparr>"
      by simp
    ultimately show ?thesis
      using False by (intro exI [of _ 0]) auto
  next
    case True
    define p' where "p' = (let t' = t\<lparr>postWriteInterval := postWriteInterval t * 2\<rparr>
             in if \<not> invalidated then (InvalidateDataplaneCache t', True) else (t', invalidated))"
    have fields: "lastWriteTime (fst p') = lastWriteTime t"
      "postWriteInterval (fst p') = postWriteInterval t * 2"
      "snd p' = True"
      "inSyncWithDataPlane (fst p') = (inSyncWithDataPlane t \<and> invalidated)"
      by (auto simp: p'_def Let_def InvalidateDataplaneCache_def)
    have rest: "(fst p')\<lparr>postWriteInterval := x, inSyncWithDataPlane := y\<rparr>
        = t\<lparr>postWriteInterval := x, inSyncWithDataPlane := y\<rparr>" for x y
      by (auto simp: p'_def Let_def InvalidateDataplaneCache_def)
    obtain k where k: "\<forall>j<k. backoffDue now (lastWriteTime t) (postWriteInterval t * 2 * 2 ^ j)"
      "\<not> backoffDue now (lastWriteTime t) (postWriteInterval t * 2 * 2 ^ k)"
      "postWriteBackoff now p' =
          (t\<lparr>postWriteInterval := postWriteInterval t * 2 * 2 ^ k,
             inSyncWithDataPlane := inSyncWithDataPlane t \<and> invalidated\<rparr>, True)"
      using "1.IH" [OF True] unfolding p'_def [symmetric] fields rest by auto
    have step: "postWriteBackoff now (t, invalidated) = postWriteBackoff now p'"
      using True by (simp add: p'_def)
    have all: "backoffDue now (lastWriteTime t) (postWriteInterval t * 2 ^ j)" if "j < Suc k" for j
    proof (cases j)
      case 0
      then show ?thesis using True by simp
    next
      case (Suc i)
      then have "i < k" using that by simp
      then show ?thesis using k(1) Suc by (simp add: mult.assoc)
    qed
    show ?thesis
      using all k(2) k(3) step
      by (intro exI [of _ "Suc k"]) (auto simp: mult.assoc)
  qed
qed

lemma checkTimers_char:
  "\<exists>k. (\<forall>j<k. backoffDue now (lastWriteTime t) (postWriteInterval t * 2 ^ j))
      \<and> \<not> backoffDue now (lastWriteTime t) (postWriteInterval t * 2 ^ k)
      \<and> (0 < k \<longrightarrow> \<not> inSyncWithDataPlane (checkTimers now t))
      \<and> (\<exists>sync. checkTimers now t =
            t\<lparr>postWriteInterval := postWriteInterval t * 2 ^ k, inSyncWithDataPlane := sync\<rparr>)"
proof -
  define p where "p = (if word_sless 0 (refreshInterval t)
                          \<and> word_sless (refreshInterval t) (Sub now (lastReadTime t))
                       then (InvalidateDataplaneCache t, True) else (t, False))"
  have fields: "lastWriteTime (fst p) = lastWriteTime t"
    "postWriteInterval (fst p) = postWriteInterval t"
    "snd p \<longrightarrow> \<not> inSyncWithDataPlane (fst p)"
    by (auto simp: p_def InvalidateDataplaneCache_def)
  have rest: "(fst p)\<lparr>postWriteInterval := x, inSyncWithDataPlane := y\<rparr>
      = t\<lparr>postWriteInterval := x, inSyncWithDataPlane := y\<rparr>" for x y
    by (auto simp: p_def InvalidateDataplaneCache_def)
  have ct: "checkTimers now t = fst (postWriteBackoff now p)"
    by (simp add: checkTimers_def p_def Let_def split_def)
  obtain k where k: "\<forall>j<k. backoffDue now (lastWriteTime t) (postWriteInterval t * 2 ^ j)"
    "\<not> backoffDue now (lastWriteTime t) (postWriteInterval t * 2 ^ k)"
    "postWriteBackoff now p =
       (t\<lparr>postWriteInterval := postWriteInterval t * 2 ^ k,
          inSyncWithDataPlane := inSyncWithDataPlane (fst p) \<and> (k = 0 \<or> snd p)\<rparr>,
        snd p \<or> 0 < k)"
    using postWriteBackoff_char [of now p] unfolding fields rest by auto
  show ?thesis
    using k fields(3) by (intro exI [of _ k]) (auto simp: ct)
qed

lemma getHashesRetrying_world:
  "\<exists>k. snd (getHashesRetrying n t w) = w\<lparr>saveCalls := k\<rparr>"
proof (induction n arbitrary: w)
  case 0
  show ?case
    by (auto simp: attemptToGetHashesFromDataplane_def Let_def
        split: sum.splits prod.splits attempt.splits)
next
  case (Suc n)
  have "\<exists>k. snd (getHashesRetrying n t (w\<lparr>saveCalls := Suc (saveCalls w)\<rparr>))
      = w\<lparr>saveCalls := k\<rparr>"
    using Suc [of "w\<lparr>saveCalls := Suc (saveCalls w)\<rparr>"] by simp
  then show ?case
    by (auto simp: attemptToGetHashesFromDataplane_def Let_def
        split: sum.splits prod.splits attempt.splits)
qed

lemma loadDataplaneState_cases:
  "loadDataplaneState fp (t, w) =
     (let t2 = t\<lparr>featureDetector := detections w (refreshCalls w),
                  lastReadTime := nowReadings w (nowCalls w)\<rparr>;
          w2 = w\<lparr>refreshCalls := Suc (refreshCalls w), nowCalls := Suc (nowCalls w)\<rparr>
      in case fst (getHashesRetrying 3 t2 w2) of
           Inl p \<Rightarrow> (Some p, t2, snd (getHashesRetrying 3 t2 w2))
         | Inr dp \<Rightarrow> (None, markDirty fp dp t2, snd (getHashesRetrying 3 t2 w2)))"
  by (simp add: loadDataplaneState_def getHashesFromDataplane_def timeNow_def Let_def
      split: prod.splits sum.splits)

lemma loadDataplaneState_frame:
  assumes "loadDataplaneState fp (t, w) = (r, t', w')"
  shows "\<exists>f lr di dc dp sync k.
           t' = t\<lparr>featureDetector := f, lastReadTime := lr, dirtyInserts := di,
                  dirtyChains := dc, chainToDataplaneHashes := dp,
                  inSyncWithDataPlane := sync\<rparr>
           \<and> w' = w\<lparr>refreshCalls := Suc (refreshCalls w), nowCalls := Suc (nowCalls w),
                     saveCalls := k\<rparr>"
proof -
  define t2 where "t2 = t\<lparr>featureDetector := detections w (refreshCalls w),
                          lastReadTime := nowReadings w (nowCalls w)\<rparr>"
  define w2 where "w2 = w\<lparr>refreshCalls := Suc (refreshCalls w), nowCalls := Suc (nowCalls w)\<rparr>"
  obtain k where k: "snd (getHashesRetrying 3 t2 w2) = w2\<lparr>saveCalls := k\<rparr>"
    using getHashesRetrying_world by blast
  have w': "w' = w\<lparr>refreshCalls := Suc (refreshCalls w), nowCalls := Suc (nowCalls w),
                     saveCalls := k\<rparr>"
    using assms k unfolding loadDataplaneState_cases t2_def [symmetric] w2_def [symmetric]
    by (auto simp: Let_def w2_def split: sum.splits)
  have "\<exists>di dc dp sync. t' = t2\<lparr>dirtyInserts := di, dirtyChains := dc,
      chainToDataplaneHashes := dp, inSyncWithDataPlane := sync\<rparr>"
  proof (cases "fst (getHashesRetrying 3 t2 w2)")
    case (Inl p)
    then have "t' = t2"
      using assms unfolding loadDataplaneState_cases t2_def [symmetric] w2_def [symmetric]
      by (simp add: Let_def)
    then have "t' = t2\<lparr>dirtyInserts := dirtyInserts t2, dirtyChains := dirtyChains t2,
      chainToDataplaneHashes := chainToDataplaneHashes t2,
      inSyncWithDataPlane := inSyncWithDataPlane t2\<rparr>"
      by simp
    then show ?thesis by blast
  next
    case (Inr dp)
    then have "t' = markDirty fp dp t2"
      using assms unfolding loadDataplaneState_cases t2_def [symmetric] w2_def [symmetric]
      by (simp add: Let_def)
    then show ?thesis using markDirty_frame [of fp dp t2] by blast
  qed
  then obtain di dc dp sync where "t' = t2\<lparr>dirtyInserts := di, dirtyChains := dc,
      chainToDataplaneHashes := dp, inSyncWithDataPlane := sync\<rparr>"
    by blast
  then have "t' = t\<lparr>featureDetector := detections w (refreshCalls w),
      lastReadTime := nowReadings w (nowCalls w), dirtyInserts := di, dirtyChains := dc,
      chainToDataplaneHashes := dp, inSyncWithDataPlane := sync\<rparr>"
    by (simp add: t2_def)
  then show ?thesis using w' by blast
qed

lemma reloadIfNeeded_frame:
  assumes "reloadIfNeeded fp (t, w) = (r, t', w')"
  shows "\<exists>f lr di dc dp sync rc nc k.
           t' = t\<lparr>featureDetector := f, lastReadTime := lr, dirtyInserts := di,
                  dirtyChains := dc, chainToDataplaneHashes := dp,
                  inSyncWithDataPlane := sync\<rparr>
           \<and> w' = w\<lparr>refreshCalls := rc, nowCalls := nc, saveCalls := k\<rparr>"
proof (cases "inSyncWithDataPlane t")
  case True
  then have "t' = t" "w' = w" using assms by (simp_all add: reloadIfNeeded_def)
  then have "t' = t\<lparr>featureDetector := featureDetector t, lastReadTime := lastReadTime t,
        dirtyInserts := dirtyInserts t, dirtyChains := dirtyChains t,
        chainToDataplaneHashes := chainToDataplaneHashes t,
        inSyncWithDataPlane := inSyncWithDataPlane t\<rparr>"
    "w' = w\<lparr>refreshCalls := refreshCalls w, nowCalls := nowCalls w, saveCalls := saveCalls w\<rparr>"
    by simp_all
  then show ?thesis by blast
next
  case False
  then have "loadDataplaneState fp (t, w) = (r, t', w')"
    using assms by (simp add: reloadIfNeeded_def)
  from loadDataplaneState_frame [OF this] show ?thesis by blast
qed

lemma written_nonempty: "\<not> opened b \<Longrightarrow> \<not> Empty b \<Longrightarrow> written b \<noteq> []"
  by (cases "current b") (auto simp: Empty_def opened_def)

lemma applyUpdates_interval:
  assumes "applyUpdates fp (t, w) = (e, t', w')"
  shows "initialPostWriteInterval t' = initialPostWriteInterval t
         \<and> restoreRuns w' = restoreRuns w
         \<and> (restoreLog w' = restoreLog w \<and> postWriteInterval t' = postWriteInterval t
            \<or> (\<exists>input. input \<noteq> [] \<and> restoreLog w' = restoreLog w @ [input]
                  \<and> (if e = None
                      then restoreRuns w (length (restoreLog w))
                           \<and> postWriteInterval t' = initialPostWriteInterval t
                      else postWriteInterval t' = postWriteInterval t)))"
proof -
  have ne: "written (builtBuffer fp (t, w)) \<noteq> []" if "\<not> Empty (builtBuffer fp (t, w))"
    using that builtBuffer(2) [of fp t w] by (rule written_nonempty [rotated])
  show ?thesis
    using assms ne
    by (auto simp: applyUpdates_eq Let_def clearDirty_def split: if_splits)
qed

lemma restoreAccepted_now:
  "restoreLog w' = restoreLog w @ [input] \<Longrightarrow> input \<noteq> []
     \<Longrightarrow> restoreRuns w (length (restoreLog w)) \<Longrightarrow> restoreAccepted w w'"
  by (simp add: restoreAccepted_def list_ex_iff)

lemma restoreAccepted_earlier:
  "restoreAccepted w1 w' \<Longrightarrow> length (restoreLog w) \<le> length (restoreLog w1)
     \<Longrightarrow> restoreRuns w1 = restoreRuns w \<Longrightarrow> restoreAccepted w w'"
  by (auto simp: restoreAccepted_def list_ex_iff)

lemma restoreAccepted_later:
  "restoreAccepted w w1 \<Longrightarrow> prefix (restoreLog w1) (restoreLog w') \<Longrightarrow> restoreAccepted w w'"
  by (auto simp: restoreAccepted_def list_ex_iff prefix_def nth_append)

lemma applyUpdates_step:
  assumes "applyUpdates fp (t, w) = (e, t', w')"
  shows "initialPostWriteInterval t' = initialPostWriteInterval t"
    and "restoreRuns w' = restoreRuns w"
    and "prefix (restoreLog w) (restoreLog w')"
    and "e \<noteq> None \<Longrightarrow> \<not> restoreAccepted w w'"
    and "postWriteInterval t' =
           (if restoreAccepted w w' then initialPostWriteInterval t else postWriteInterval t)"
proof -
  have ne: "written (builtBuffer fp (t, w)) \<noteq> []" if "\<not> Empty (builtBuffer fp (t, w))"
    using that builtBuffer(2) [of fp t w] by (rule written_nonempty [rotated])
  have none: "\<not> restoreAccepted w w'" if "restoreLog w' = restoreLog w"
    using that by (simp add: restoreAccepted_def)
  have one: "restoreAccepted w w' \<longleftrightarrow> restoreRuns w (length (restoreLog w))"
    if "restoreLog w' = restoreLog w @ [input]" "input \<noteq> []" for input
    using that by (simp add: restoreAccepted_def)
  show "initialPostWriteInterval t' = initialPostWriteInterval t"
    and "restoreRuns w' = restoreRuns w"
    and "prefix (restoreLog w) (restoreLog w')"
    using assms by (auto simp: applyUpdates_eq Let_def clearDirty_def split: if_splits)
  show "\<not> restoreAccepted w w'" if "e \<noteq> None"
  proof -
    have "restoreLog w' = restoreLog w @ [written (builtBuffer fp (t, w))]"
      "\<not> restoreRuns w (length (restoreLog w))" "\<not> Empty (builtBuffer fp (t, w))"
      using assms that by (auto simp: applyUpdates_eq Let_def split: if_splits)
    then show ?thesis using one ne by blast
  qed
  show "postWriteInterval t' =
           (if restoreAccepted w w' then initialPostWriteInterval t else postWriteInterval t)"
  proof (cases "Empty (builtBuffer fp (t, w))")
    case True
    then have "restoreLog w' = restoreLog w" "postWriteInterval t' = postWriteInterval t"
      using assms by (auto simp: applyUpdates_eq Let_def clearDirty_def)
    then show ?thesis using none by simp
  next
    case False
    then have log: "restoreLog w' = restoreLog w @ [written (builtBuffer fp (t, w))]"
      using assms by (auto simp: applyUpdates_eq Let_def split: if_splits)
    have acc: "restoreAccepted w w' \<longleftrightarrow> restoreRuns w (length (restoreLog w))"
      using one [OF log ne [OF False]] .
    show ?thesis
      using assms False
      by (auto simp: acc applyUpdates_eq Let_def clearDirty_def split: if_splits)
  qed
qed

lemma reloadIfNeeded_step:
  assumes "reloadIfNeeded fp (t, w) = (r, t', w')"
  shows "postWriteInterval t' = postWriteInterval t"
    and "initialPostWriteInterval t' = initialPostWriteInterval t"
    and "restoreRuns w' = restoreRuns w" and "restoreLog w' = restoreLog w"
  using reloadIfNeeded_frame [OF assms] by auto

lemma restoreAccepted_same:
  "restoreLog w1 = restoreLog w \<Longrightarrow> restoreRuns w1 = restoreRuns w
     \<Longrightarrow> restoreAccepted w1 w' = restoreAccepted w w'"
  by (simp add: restoreAccepted_def)

lemma restoreAccepted_same_end:
  "restoreLog w1 = restoreLog w' \<Longrightarrow> restoreAccepted w w1 = restoreAccepted w w'"
  by (simp add: restoreAccepted_def)

lemma restoreAccepted_split:
  assumes p1: "prefix (restoreLog w) (restoreLog w2)"
    and p2: "prefix (restoreLog w2) (restoreLog w')"
    and runs: "restoreRuns w2 = restoreRuns w"
  shows "restoreAccepted w w' \<longleftrightarrow> restoreAccepted w w2 \<or> restoreAccepted w2 w'"
proof -
  obtain xs where xs: "restoreLog w2 = restoreLog w @ xs"
    using p1 by (auto simp: prefix_def)
  obtain ys where ys: "restoreLog w' = restoreLog w2 @ ys"
    using p2 by (auto simp: prefix_def)
  have split: "[length (restoreLog w)..<length (restoreLog w')]
      = [length (restoreLog w)..<length (restoreLog w2)]
        @ [length (restoreLog w2)..<length (restoreLog w')]"
  proof -
    have le: "length (restoreLog w) \<le> length (restoreLog w2)"
      "length (restoreLog w2) \<le> length (restoreLog w')"
      by (simp_all add: xs ys)
    show ?thesis
      using upt_add_eq_append [OF le(1), of "length (restoreLog w') - length (restoreLog w2)"] le(2)
      by simp
  qed
  have early: "restoreLog w' ! n = restoreLog w2 ! n" if "n < length (restoreLog w2)" for n
    using that by (simp add: ys nth_append)
  show ?thesis
    unfolding restoreAccepted_def split list_ex_append runs
    by (auto simp: list_ex_iff early)
qed

lemma round_step:
  assumes re: "reloadIfNeeded fp (t, w) = (None, t1, w1)"
    and au: "applyUpdates fp (t1, w1) = (e, t2, w2)"
  shows "initialPostWriteInterval t2 = initialPostWriteInterval t"
    and "restoreRuns w2 = restoreRuns w"
    and "prefix (restoreLog w) (restoreLog w2)"
    and "e \<noteq> None \<Longrightarrow> \<not> restoreAccepted w w2"
    and "postWriteInterval t2 =
           (if restoreAccepted w w2 then initialPostWriteInterval t else postWriteInterval t)"
proof -
  note r = reloadIfNeeded_step [OF re]
  note a = applyUpdates_step [OF au]
  note same = restoreAccepted_same [OF r(4) r(3)]
  show "initialPostWriteInterval t2 = initialPostWriteInterval t"
    using a(1) r(2) by simp
  show "restoreRuns w2 = restoreRuns w"
    using a(2) r(3) by simp
  show "prefix (restoreLog w) (restoreLog w2)"
    using a(3) r(4) by simp
  show "\<not> restoreAccepted w w2" if "e \<noteq> None"
    using a(4) [OF that] same by simp
  show "postWriteInterval t2 =
           (if restoreAccepted w w2 then initialPostWriteInterval t else postWriteInterval t)"
    using a(5) r(1,2) same by simp
qed

lemma applyRetrying_interval:
  "applyRetrying fp n (t, w) = (r, t', w')
     \<Longrightarrow> initialPostWriteInterval t' = initialPostWriteInterval t
         \<and> restoreRuns w' = restoreRuns w
         \<and> prefix (restoreLog w) (restoreLog w')
         \<and> postWriteInterval t' =
             (if restoreAccepted w w' then initialPostWriteInterval t else postWriteInterval t)"
proof (induction n arbitrary: t w)
  case 0
  obtain r1 t1 w1 where re: "reloadIfNeeded fp (t, w) = (r1, t1, w1)"
    by (cases "reloadIfNeeded fp (t, w)") auto
  show ?case
  proof (cases r1)
    case (Some p)
    then have fin: "t' = t1" "w' = w1" using "0.prems" re by simp_all
    have "\<not> restoreAccepted w w1"
      using reloadIfNeeded_step(4) [OF re] by (simp add: restoreAccepted_def)
    then show ?thesis using reloadIfNeeded_step [OF re] fin by simp
  next
    case None
    obtain e t2 w2 where au: "applyUpdates fp (t1, w1) = (e, t2, w2)"
      by (cases "applyUpdates fp (t1, w1)") auto
    note rs = round_step [OF re [unfolded None] au]
    show ?thesis
    proof (cases e)
      case None2: None
      then have "t' = t2" "w' = w2" using "0.prems" re None au by simp_all
      then show ?thesis using rs(1,2,3,5) by simp
    next
      case (Some err)
      then have fin: "t' = t2" "w' = diagnosticSave w2"
        using "0.prems" re None au by simp_all
      have "restoreAccepted w w' = restoreAccepted w w2"
        by (rule restoreAccepted_same_end) (simp add: fin diagnosticSave_def)
      then show ?thesis using rs(1,2,3,5) fin by (simp add: diagnosticSave_def)
    qed
  qed
next
  case (Suc n)
  obtain r1 t1 w1 where re: "reloadIfNeeded fp (t, w) = (r1, t1, w1)"
    by (cases "reloadIfNeeded fp (t, w)") auto
  show ?case
  proof (cases r1)
    case (Some p)
    then have fin: "t' = t1" "w' = w1" using Suc.prems re by simp_all
    have "\<not> restoreAccepted w w1"
      using reloadIfNeeded_step(4) [OF re] by (simp add: restoreAccepted_def)
    then show ?thesis using reloadIfNeeded_step [OF re] fin by simp
  next
    case None
    obtain e t2 w2 where au: "applyUpdates fp (t1, w1) = (e, t2, w2)"
      by (cases "applyUpdates fp (t1, w1)") auto
    note rs = round_step [OF re [unfolded None] au]
    show ?thesis
    proof (cases e)
      case None2: None
      then have "t' = t2" "w' = w2" using Suc.prems re None au by simp_all
      then show ?thesis using rs(1,2,3,5) by simp
    next
      case (Some err)
      then have rec: "applyRetrying fp n (t2, w2) = (r, t', w')"
        using Suc.prems re None au by simp
      have failed: "\<not> restoreAccepted w w2"
        using rs(4) Some by simp
      then have same: "postWriteInterval t2 = postWriteInterval t"
        using rs(5) by simp
      note ih = Suc.IH [OF rec]
      have i: "initialPostWriteInterval t' = initialPostWriteInterval t"
        using ih rs(1) by simp
      have ru: "restoreRuns w' = restoreRuns w"
        using ih rs(2) by simp
      have p2: "prefix (restoreLog w2) (restoreLog w')"
        using ih by simp
      have pre: "prefix (restoreLog w) (restoreLog w')"
        using p2 rs(3) by (meson prefix_order.trans)
      have acc: "restoreAccepted w w' = restoreAccepted w2 w'"
        using restoreAccepted_split [OF rs(3) p2 rs(2)] failed by simp
      have "postWriteInterval t' =
             (if restoreAccepted w w' then initialPostWriteInterval t else postWriteInterval t)"
        using ih rs(1) same acc by simp
      then show ?thesis using i ru pre by simp
    qed
  qed
qed

text \<open>
  C6. In every \<open>Apply\<close> call the post-write interval is doubled as long as it is non-zero,
  below one hour, and not longer than the time since the last write; the first doubling
  invalidates the dataplane cache.  At the end of the call the interval is its
  initial value, when the restore command has accepted a non-empty transaction during
  the call, or else the doubled one.
\<close>

theorem Apply_post_write_interval:
  assumes "Apply fp (t, w) = (r, t', w')"
  shows "\<exists>k. (\<forall>j<k. backoffDue (nowReadings w (nowCalls w)) (lastWriteTime t)
                       (postWriteInterval t * 2 ^ j))
            \<and> \<not> backoffDue (nowReadings w (nowCalls w)) (lastWriteTime t)
                   (postWriteInterval t * 2 ^ k)
            \<and> postWriteInterval (checkTimers (nowReadings w (nowCalls w)) t)
                = postWriteInterval t * 2 ^ k
            \<and> (0 < k \<longrightarrow> \<not> inSyncWithDataPlane (checkTimers (nowReadings w (nowCalls w)) t))
            \<and> initialPostWriteInterval t' = initialPostWriteInterval t
            \<and> postWriteInterval t' =
                (if restoreAccepted w w' then initialPostWriteInterval t
                 else postWriteInterval t * 2 ^ k)"
proof -
  define now where "now = nowReadings w (nowCalls w)"
  define w1 where "w1 = w\<lparr>nowCalls := Suc (nowCalls w)\<rparr>"
  obtain k sync where k:
    "\<forall>j<k. backoffDue now (lastWriteTime t) (postWriteInterval t * 2 ^ j)"
    "\<not> backoffDue now (lastWriteTime t) (postWriteInterval t * 2 ^ k)"
    "0 < k \<longrightarrow> \<not> inSyncWithDataPlane (checkTimers now t)"
    "checkTimers now t =
       t\<lparr>postWriteInterval := postWriteInterval t * 2 ^ k, inSyncWithDataPlane := sync\<rparr>"
    using checkTimers_char [of now t] by blast
  obtain r1 where run: "applyRetrying fp 10 (checkTimers now t, w1) = (r1, t', w')"
    using assms
    by (cases "applyRetrying fp 10 (checkTimers now t, w1)")
       (auto simp: Apply_def timeNow_def Let_def now_def w1_def split: option.splits)
  have ct: "postWriteInterval (checkTimers now t) = postWriteInterval t * 2 ^ k"
    "initialPostWriteInterval (checkTimers now t) = initialPostWriteInterval t"
    by (simp_all add: k(4))
  have w1: "restoreLog w1 = restoreLog w" "restoreRuns w1 = restoreRuns w"
    by (simp_all add: w1_def)
  note iv = applyRetrying_interval [OF run]
  have init: "initialPostWriteInterval t' = initialPostWriteInterval t"
    using iv ct(2) by simp
  have last: "postWriteInterval t' =
      (if restoreAccepted w w' then initialPostWriteInterval t else postWriteInterval t * 2 ^ k)"
    using iv ct restoreAccepted_same [OF w1, of w'] by simp
  have "(\<forall>j<k. backoffDue now (lastWriteTime t) (postWriteInterval t * 2 ^ j))
        \<and> \<not> backoffDue now (lastWriteTime t) (postWriteInterval t * 2 ^ k)
        \<and> postWriteInterval (checkTimers now t) = postWriteInterval t * 2 ^ k
        \<and> (0 < k \<longrightarrow> \<not> inSyncWithDataPlane (checkTimers now t))
        \<and> initialPostWriteInterval t' = initialPostWriteInterval t
        \<and> postWriteInterval t' =
            (if restoreAccepted w w' then initialPostWriteInterval t
             else postWriteInterval t * 2 ^ k)"
    using k(1,2,3) ct(1) init last by blast
  then show ?thesis
    unfolding now_def by (rule exI)
qed

lemma written_timers:
  "checkTimers 120000000 writtenTable
     = writtenTable\<lparr>postWriteInterval := 200000000, inSyncWithDataPlane := False\<rparr>"
  by (simp add: apply_evals table_evals writtenTable_def)

lemma written_Apply:
  "snd (Apply testFingerprint (writtenTable, worldAt120ms)) =
     (writtenTable\<lparr>postWriteInterval := 200000000, lastReadTime := 120000000\<rparr>,
      worldAt120ms\<lparr>nowCalls := 2, refreshCalls := 1, saveCalls := 1, iterCalls := 4\<rparr>)"
proof -
  let ?t = "writtenTable\<lparr>postWriteInterval := 200000000, inSyncWithDataPlane := False\<rparr>"
  let ?w = "worldAt120ms\<lparr>nowCalls := Suc (nowCalls worldAt120ms)\<rparr>"
  let ?t' = "writtenTable\<lparr>postWriteInterval := 200000000, lastReadTime := 120000000\<rparr>"
  let ?w1 = "worldAt120ms\<lparr>nowCalls := 2, refreshCalls := 1, saveCalls := 1\<rparr>"
  have now: "nowReadings worldAt120ms (nowCalls worldAt120ms) = 120000000"
    by (simp add: worldAt120ms_def)
  have read: "readHashesFrom t (newClosableBuf []) = Inr []" for t
    by (simp add: parser_evals)
  have 1: "reloadIfNeeded testFingerprint (?t, ?w) = (None, ?t', ?w1)"
    by (simp add: reloadIfNeeded_def loadDataplaneState_def getHashesFromDataplane_def
        attemptToGetHashesFromDataplane_def eval_nat_numeral timeNow_def Let_def read
        worldAt120ms_def stillWorld_def quietRun_def markDirty_def writtenTable_def testTable_def
        noFeatures_def)
  have 2: "applyUpdates testFingerprint (?t', ?w1)
      = (None, ?t', worldAt120ms\<lparr>nowCalls := 2, refreshCalls := 1, saveCalls := 1, iterCalls := 4\<rparr>)"
    by (simp add: writtenTable_def worldAt120ms_def table_evals)
  have 3: "applyRetrying testFingerprint 10 (?t, ?w)
      = (None, ?t', worldAt120ms\<lparr>nowCalls := 2, refreshCalls := 1, saveCalls := 1, iterCalls := 4\<rparr>)"
  proof -
    have a: "fst (reloadIfNeeded testFingerprint (?t, ?w)) = None"
      unfolding 1 by simp
    have b: "fst (applyUpdates testFingerprint (snd (reloadIfNeeded testFingerprint (?t, ?w)))) = None"
      unfolding 1 snd_conv 2 by simp
    show ?thesis
      using applyRetrying_done [OF a b, of 10] unfolding 1 snd_conv 2 .
  qed
  have 4: "fst (applyRetrying testFingerprint 10
      (checkTimers (nowReadings worldAt120ms (nowCalls worldAt120ms)) writtenTable, ?w)) = None"
    unfolding now written_timers 3 by simp
  show ?thesis
    using Apply_done [OF 4] unfolding now written_timers 3 by simp
qed

text \<open>
  Last write at time 0, interval 50 ms, clock at 120 ms: the interval is doubled twice, to
  200 ms, the cache is read again, nothing is written, and the interval stays at 200 ms.
\<close>

theorem Apply_post_write_interval_witness:
  "postWriteInterval (fst (snd (Apply testFingerprint (writtenTable, worldAt120ms))))
     = 200000000
   \<and> lastReadTime (fst (snd (Apply testFingerprint (writtenTable, worldAt120ms)))) = 120000000
   \<and> \<not> restoreAccepted worldAt120ms (snd (snd (Apply testFingerprint (writtenTable, worldAt120ms))))
   \<and> (\<exists>k. minPostWriteInterval * 2 ^ k = 200000000
           \<and> \<not> backoffDue 120000000 0 (minPostWriteInterval * 2 ^ k))"
proof -
  let ?t' = "writtenTable\<lparr>postWriteInterval := 200000000, lastReadTime := 120000000\<rparr>"
  let ?w' = "worldAt120ms\<lparr>nowCalls := 2, refreshCalls := 1, saveCalls := 1, iterCalls := 4\<rparr>"
  obtain r where run: "Apply testFingerprint (writtenTable, worldAt120ms) = (r, ?t', ?w')"
    using written_Apply by (cases "Apply testFingerprint (writtenTable, worldAt120ms)") auto
  have no: "\<not> restoreAccepted worldAt120ms ?w'"
    by (simp add: restoreAccepted_def worldAt120ms_def stillWorld_def)
  have fields: "nowReadings worldAt120ms (nowCalls worldAt120ms) = 120000000"
    "lastWriteTime writtenTable = 0" "postWriteInterval writtenTable = minPostWriteInterval"
    "postWriteInterval ?t' = 200000000"
    by (simp_all add: worldAt120ms_def writtenTable_def testTable_def)
  obtain k where due: "\<not> backoffDue (nowReadings worldAt120ms (nowCalls worldAt120ms))
        (lastWriteTime writtenTable) (postWriteInterval writtenTable * 2 ^ k)"
    and last: "postWriteInterval ?t' =
        (if restoreAccepted worldAt120ms ?w' then initialPostWriteInterval writtenTable
         else postWriteInterval writtenTable * 2 ^ k)"
    using Apply_post_write_interval [OF run] by blast
  have "postWriteInterval ?t' = postWriteInterval writtenTable * 2 ^ k"
    using last no by (simp only: if_False)
  then have eq: "minPostWriteInterval * 2 ^ k = 200000000"
    unfolding fields by (rule sym)
  have "\<not> backoffDue 120000000 0 (minPostWriteInterval * 2 ^ k)"
    using due unfolding fields .
  then have "\<exists>k. minPostWriteInterval * 2 ^ k = 200000000
           \<and> \<not> backoffDue 120000000 0 (minPostWriteInterval * 2 ^ k)"
    using eq by blast
  then show ?thesis
    unfolding run using no by simp
qed

subsection \<open>The lines of one chain\<close>

lemma chainLines_append [simp]: "chainLines c (xs @ ys) = chainLines c xs @ chainLines c ys"
  by (simp add: chainLines_def)

lemma chainLines_Nil [simp]: "chainLines c [] = []"
  by (simp add: chainLines_def)

lemma chainLines_other:
  assumes "\<And>x l. x \<in> set xs \<Longrightarrow> l \<in> set (f x) \<Longrightarrow> lineChain l = x" and "c \<notin> set xs"
  shows "chainLines c (concat (map f xs)) = []"
  using assms by (induction xs) (auto simp: chainLines_def filter_empty_conv)

lemma chainLines_own:
  assumes "\<And>x l. x \<in> set xs \<Longrightarrow> l \<in> set (f x) \<Longrightarrow> lineChain l = x"
    and "distinct xs" and "c \<in> set xs"
  shows "chainLines c (concat (map f xs)) = f c"
  using assms
proof (induction xs)
  case Nil
  then show ?case by simp
next
  case (Cons x xs)
  have own: "\<And>l. l \<in> set (f x) \<Longrightarrow> lineChain l = x"
    using Cons.prems(1) by simp
  have rest: "\<And>y l. y \<in> set xs \<Longrightarrow> l \<in> set (f y) \<Longrightarrow> lineChain l = y"
    using Cons.prems(1) by simp
  show ?case
  proof (cases "x = c")
    case True
    then have "c \<notin> set xs" using Cons.prems(2) by simp
    then have "chainLines c (concat (map f xs)) = []"
      using rest by (rule chainLines_other [rotated])
    moreover have "chainLines c (f c) = f c"
      using own True by (simp add: chainLines_def filter_id_conv)
    ultimately show ?thesis using True by simp
  next
    case False
    then have "chainLines c (f x) = []"
      using own by (auto simp: chainLines_def filter_empty_conv)
    moreover have "chainLines c (concat (map f xs)) = f c"
      using Cons.IH rest Cons.prems(2,3) False by simp
    ultimately show ?thesis by simp
  qed
qed

lemma lineChain_flushLines: "l \<in> set (flushLines fp t x) \<Longrightarrow> lineChain l = x"
  by (auto simp: flushLines_def split: if_splits)

lemma lineChain_updateLines: "l \<in> set (updateLines fp t x) \<Longrightarrow> lineChain l = x"
  by (auto simp: updateLines_def Let_def List.map_filter_def ruleDelta_def
      split: option.splits if_splits)

lemma lineChain_insertLines: "l \<in> set (insertLines fp t x) \<Longrightarrow> lineChain l = x"
  by (auto simp: insertLines_def Let_def split: if_splits)

lemma lineChain_deleteRefLines: "l \<in> set (deleteRefLines t x) \<Longrightarrow> lineChain l = x"
  by (auto simp: deleteRefLines_def split: if_splits)

lemma lineChain_deleteLines: "l \<in> set (deleteLines t x) \<Longrightarrow> lineChain l = x"
  by (auto simp: deleteLines_def split: if_splits)

lemma chainLines_writtenLines:
  assumes d: "distinct (dirtyInserts t)" and c: "c \<notin> set (dirtyChains t)"
  shows "chainLines c (writtenLines fp t w)
           = (if c \<in> set (dirtyInserts t) then insertLines fp t c else [])"
proof -
  have c': "c \<notin> set (stillDirty fp t)"
    using c by (simp add: set_stillDirty)
  have flush: "chainLines c (concat (map (flushLines fp t) (visitOrder w j (dirtyChains t)))) = []"
    for j
    by (rule chainLines_other) (auto simp: lineChain_flushLines visitOrder_def set_pickOrder c)
  have upd: "chainLines c (concat (map (updateLines fp t) (visitOrder w j (stillDirty fp t)))) = []"
    for j
    by (rule chainLines_other) (auto simp: lineChain_updateLines visitOrder_def set_pickOrder c')
  have dref: "chainLines c (concat (map (deleteRefLines t) (visitOrder w j (stillDirty fp t)))) = []"
    for j
    by (rule chainLines_other) (auto simp: lineChain_deleteRefLines visitOrder_def set_pickOrder c')
  have del: "chainLines c (concat (map (deleteLines t) (visitOrder w j (stillDirty fp t)))) = []"
    for j
    by (rule chainLines_other) (auto simp: lineChain_deleteLines visitOrder_def set_pickOrder c')
  have ins: "chainLines c (concat (map (insertLines fp t) (visitOrder w 2 (dirtyInserts t))))
      = (if c \<in> set (dirtyInserts t) then insertLines fp t c else [])"
  proof (cases "c \<in> set (dirtyInserts t)")
    case True
    have "chainLines c (concat (map (insertLines fp t) (visitOrder w 2 (dirtyInserts t))))
        = insertLines fp t c"
      by (rule chainLines_own)
         (auto simp: lineChain_insertLines visitOrder_def set_pickOrder distinct_pickOrder d True)
    then show ?thesis using True by simp
  next
    case False
    have "chainLines c (concat (map (insertLines fp t) (visitOrder w 2 (dirtyInserts t)))) = []"
      by (rule chainLines_other)
         (auto simp: lineChain_insertLines visitOrder_def set_pickOrder False)
    then show ?thesis using False by simp
  qed
  show ?thesis
    unfolding writtenLines_def by (simp add: flush upd dref del ins)
qed

lemma applyUpdates_lines:
  assumes "applyUpdates fp (t, w) = (r, t', w')"
  shows "restoredLines w w' = writtenLines fp t w"
proof (cases "Empty (builtBuffer fp (t, w))")
  case True
  then have "restoreLog w' = restoreLog w"
    using assms by (auto simp: applyUpdates_eq Let_def)
  moreover have "writtenLines fp t w = []"
    using True by (simp add: Empty_builtBuffer)
  ultimately show ?thesis by (simp add: restoredLines_def)
next
  case False
  then have log: "restoreLog w' = restoreLog w @ [written (builtBuffer fp (t, w))]"
    using assms by (auto simp: applyUpdates_eq Let_def split: if_splits)
  have "current (builtBuffer fp (t, w)) = None"
    using builtBuffer(2) [of fp t w] by (cases "current (builtBuffer fp (t, w))") (auto simp: opened_def)
  then have "inputLines (written (builtBuffer fp (t, w))) = writtenLines fp t w"
    using builtBuffer(1) [of fp t w] by (simp add: bufferLines_def)
  then show ?thesis by (simp add: restoredLines_def log)
qed

lemma distinct_fold_checkChain:
  "distinct (dirtyInserts t) \<Longrightarrow> distinct (dirtyInserts (fold (checkChain fp dp) es t))"
proof (induction es arbitrary: t)
  case Nil
  then show ?case by simp
next
  case (Cons e es)
  obtain c x where e: "e = (c, x)" by (cases e)
  have "distinct (dirtyInserts (checkChain fp dp (c, x) t))"
    using Cons.prems by (simp add: checkChain_eq)
  then show ?case using Cons.IH by (simp add: e)
qed

lemma distinct_fold_scanChain:
  "distinct (dirtyInserts t) \<Longrightarrow> distinct (dirtyInserts (fold scanChain es t))"
proof (induction es arbitrary: t)
  case Nil
  then show ?case by simp
next
  case (Cons e es)
  obtain c x where e: "e = (c, x)" by (cases e)
  have "distinct (dirtyInserts (scanChain (c, x) t))"
    using Cons.prems by (simp add: scanChain_eq)
  then show ?case using Cons.IH by (simp add: e)
qed

lemma distinct_markDirty:
  "distinct (dirtyInserts t) \<Longrightarrow> distinct (dirtyInserts (markDirty fp dp t))"
  by (simp add: markDirty_def Let_def distinct_fold_scanChain distinct_fold_checkChain)

lemma specExpectedHashes_eq:
  "fst (expectedHashesForInsertChain fp t c n) = specExpectedHashes fp t c n"
  "snd (expectedHashesForInsertChain fp t c n)
     = map (fp (featureDetector t) c (insertedRules t c)) [0..<length (insertedRules t c)]"
  by (simp_all add: expectedHashes_closed_form specExpectedHashes_def Let_def
      calculateRuleInsertHashes_def RuleHashes_def)

lemma insertLines_eq:
  "insertLines fp t c =
     (let readBack = elems (map_of (chainToDataplaneHashes t) c);
          rules = insertedRules t c
      in if insertsInSync fp t c then []
         else map (\<lambda>i. DeleteRule c (i + 1))
                (filter (\<lambda>i. readBack ! i \<noteq> []) (rev [0..<length readBack]))
              @ (if insertMode t = ''insert''
                 then map (\<lambda>i. RenderInsert (rules ! i) c
                                  (commentFrag t (fp (featureDetector t) c rules i))
                                  (featureDetector t))
                        (rev [0..<length rules])
                 else map (\<lambda>i. RenderAppend (rules ! i) c
                                  (commentFrag t (fp (featureDetector t) c rules i))
                                  (featureDetector t))
                        [0..<length rules]))"
  by (simp add: insertLines_def Let_def specExpectedHashes_eq len_def)

subsection \<open>A reload followed by \<open>applyUpdates\<close>: the inserts of a hooked chain\<close>

text \<open>
  C5. One round of the retry loop of \<open>Apply\<close> on a table whose cache is invalid:
  \<open>reloadIfNeeded\<close> is \<open>loadDataplaneState\<close>, and the cache it leaves is the map that
  \<open>getHashesFromDataplane\<close> has just read.  For a chain \<open>c\<close> of the old cache that is
  neither ours nor dirty, the expected list is computed from the number of empty
  fingerprints in the list read back for \<open>c\<close>: that many empty strings followed (append
  mode) or preceded (insert mode) by our fingerprints.  The inserts of \<open>c\<close> are marked
  dirty exactly when the list read back differs from it.  The \<open>applyUpdates\<close> that
  follows then hands to the restore command, for \<open>c\<close>, nothing when the lists agree, and
  otherwise the deletion of every non-empty position of the list read back, from the
  last down (position \<open>i + 1\<close> for index \<open>i\<close>), followed by our rules rendered again;
  when it succeeds the cache holds the expected list for \<open>c\<close>.
\<close>

theorem reload_recomputes_insert_positions:
  assumes stale: "\<not> inSyncWithDataPlane t"
    and reload: "reloadIfNeeded fp (t, w) = (None, t1, w1)"
    and update: "applyUpdates fp (t1, w1) = (r, t2, w2)"
    and hooked: "c \<in> fst ` set (chainToDataplaneHashes t)"
    and clean: "\<not> isDirty t c"
    and foreign: "\<not> ourChainsRegexp t c"
    and dist: "distinct (dirtyInserts t)"
  shows "loadDataplaneState fp (t, w) = (None, t1, w1)
    \<and> fst (getHashesFromDataplane
             (t\<lparr>featureDetector := detections w (refreshCalls w),
                lastReadTime := nowReadings w (nowCalls w)\<rparr>)
             (w\<lparr>refreshCalls := Suc (refreshCalls w), nowCalls := Suc (nowCalls w)\<rparr>))
        = Inr (chainToDataplaneHashes t1)
    \<and> (let readBack = elems (map_of (chainToDataplaneHashes t1) c);
            n = length (filter (\<lambda>h. h = []) readBack);
            expected = specExpectedHashes fp t1 c n;
            rules = insertedRules t1 c;
            deletions = map (\<lambda>i. DeleteRule c (i + 1))
                          (filter (\<lambda>i. readBack ! i \<noteq> []) (rev [0..<length readBack]));
            renderings =
              (if insertMode t1 = ''insert''
               then map (\<lambda>i. RenderInsert (rules ! i) c
                                (commentFrag t1 (fp (featureDetector t1) c rules i))
                                (featureDetector t1))
                      (rev [0..<length rules])
               else map (\<lambda>i. RenderAppend (rules ! i) c
                                (commentFrag t1 (fp (featureDetector t1) c rules i))
                                (featureDetector t1))
                      [0..<length rules])
        in numEmptyStrings (map_of (chainToDataplaneHashes t1) c) = n
           \<and> fst (expectedHashesForInsertChain fp t1 c n) = expected
           \<and> (c \<in> set (dirtyInserts t1) \<longleftrightarrow> readBack \<noteq> expected)
           \<and> chainLines c (restoredLines w1 w2)
               = (if readBack = expected then [] else deletions @ renderings)
           \<and> (r = None \<longrightarrow> elems (map_of (chainToDataplaneHashes t2) c) = expected))"
proof -
  define t0 where "t0 = t\<lparr>featureDetector := detections w (refreshCalls w),
                          lastReadTime := nowReadings w (nowCalls w)\<rparr>"
  define w0 where "w0 = w\<lparr>refreshCalls := Suc (refreshCalls w), nowCalls := Suc (nowCalls w)\<rparr>"
  have load: "loadDataplaneState fp (t, w) = (None, t1, w1)"
    using stale reload by (simp add: reloadIfNeeded_def)
  obtain dp where dp: "fst (getHashesRetrying 3 t0 w0) = Inr dp"
    and t1: "t1 = markDirty fp dp t0"
    using load unfolding loadDataplaneState_cases t0_def [symmetric] w0_def [symmetric]
    by (cases "fst (getHashesRetrying 3 t0 w0)") (auto simp: Let_def)
  obtain di dc where frame:
    "t1 = t0\<lparr>dirtyInserts := di, dirtyChains := dc, chainToDataplaneHashes := dp,
             inSyncWithDataPlane := True\<rparr>"
    using markDirty_frame [of fp dp t0] t1 by auto
  have cache: "chainToDataplaneHashes t1 = dp"
    by (simp add: frame)
  have same: "expectedHashesForInsertChain fp t1 = expectedHashesForInsertChain fp t0"
    by (simp add: frame expectedHashesForInsertChain_def insertedRules_def fun_eq_iff)
  have pre: "c \<in> fst ` set (chainToDataplaneHashes t0)" "\<not> isDirty t0 c"
    "\<not> ourChainsRegexp t0 c" "c \<notin> set (dirtyInserts t0)" "c \<notin> set (dirtyChains t0)"
    using hooked clean foreign by (simp_all add: t0_def isDirty_def setContains_def)
  define readBack where "readBack = elems (map_of dp c)"
  define n where "n = length (filter (\<lambda>h. h = []) readBack)"
  define expected where "expected = specExpectedHashes fp t1 c n"
  have count: "numEmptyStrings (map_of dp c) = n"
    by (simp add: numEmptyStrings_count n_def readBack_def)
  have exp: "fst (expectedHashesForInsertChain fp t1 c n) = expected"
    by (simp add: specExpectedHashes_eq expected_def)
  have marked: "c \<in> set (dirtyInserts t1) \<longleftrightarrow> readBack \<noteq> expected"
    unfolding t1 markDirty_marks
    using pre by (simp add: unexpectedInserts_iff count readBack_def exp [symmetric] same)
  have notours: "c \<notin> set (dirtyChains t1)"
    unfolding t1 markDirty_marks using pre by simp
  have d1: "distinct (dirtyInserts t1)"
    unfolding t1 using dist by (intro distinct_markDirty) (simp add: t0_def)
  have sync: "insertsInSync fp t1 c \<longleftrightarrow> map_of dp c = Some expected"
    by (auto simp: insertsInSync_def cache count exp)
  have sync_elems: "insertsInSync fp t1 c \<Longrightarrow> readBack = expected"
    by (simp add: sync readBack_def elems_def)
  have lines: "chainLines c (restoredLines w1 w2)
      = (if c \<in> set (dirtyInserts t1) then insertLines fp t1 c else [])"
    using applyUpdates_lines [OF update] chainLines_writtenLines [OF d1 notours] by simp
  have written: "chainLines c (restoredLines w1 w2)
      = (if readBack = expected then []
         else map (\<lambda>i. DeleteRule c (i + 1))
                (filter (\<lambda>i. readBack ! i \<noteq> []) (rev [0..<length readBack]))
              @ (if insertMode t1 = ''insert''
                 then map (\<lambda>i. RenderInsert (insertedRules t1 c ! i) c
                                  (commentFrag t1 (fp (featureDetector t1) c (insertedRules t1 c) i))
                                  (featureDetector t1))
                        (rev [0..<length (insertedRules t1 c)])
                 else map (\<lambda>i. RenderAppend (insertedRules t1 c ! i) c
                                  (commentFrag t1 (fp (featureDetector t1) c (insertedRules t1 c) i))
                                  (featureDetector t1))
                        [0..<length (insertedRules t1 c)]))"
  proof (cases "readBack = expected")
    case True
    then show ?thesis using lines marked by simp
  next
    case False
    then have "\<not> insertsInSync fp t1 c" using sync_elems by blast
    then show ?thesis
      using lines marked False
      by (simp add: insertLines_eq Let_def cache readBack_def)
  qed
  have after: "elems (map_of (chainToDataplaneHashes t2) c) = expected" if "r = None"
  proof -
    have still: "c \<notin> set (stillDirty fp t1)"
      using notours by (simp add: set_stillDirty)
    have new: "newHashesOf fp t1 c
        = (if readBack \<noteq> expected then Some (Some expected) else None)"
    proof (cases "readBack = expected")
      case True
      then show ?thesis using marked still by (simp add: newHashesOf_def)
    next
      case False
      then have "\<not> insertsInSync fp t1 c" using sync_elems by blast
      then show ?thesis
        using marked still False by (simp add: newHashesOf_def cache count exp)
    qed
    have "map_of (chainToDataplaneHashes t2) c
        = mergedHashes (newHashesOf fp t1 c) (map_of dp c)"
      using update that
      by (auto simp: applyUpdates_eq Let_def clearDirty_cache cache split: if_splits)
    then show ?thesis
      by (auto simp: new mergedHashes_def readBack_def elems_def)
  qed
  have read: "fst (getHashesFromDataplane t0 w0) = Inr (chainToDataplaneHashes t1)"
    by (simp add: getHashesFromDataplane_def dp cache)
  show ?thesis
    using load read count exp marked written after
    unfolding t0_def w0_def cache Let_def readBack_def [symmetric] n_def [symmetric]
      expected_def [symmetric]
    by simp
qed

lemma readHashesFrom_frame:
  "hashCommentRegexp t' = hashCommentRegexp t \<Longrightarrow> oldInsertRegexp t' = oldInsertRegexp t
     \<Longrightarrow> readHashesFrom t' r = readHashesFrom t r"
proof -
  assume eq: "hashCommentRegexp t' = hashCommentRegexp t" "oldInsertRegexp t' = oldInsertRegexp t"
  have "readLine t' line h = readLine t line h" for line h
    unfolding readLine_def eq by (rule refl)
  then have "readLine t' = readLine t" by (intro ext)
  then show ?thesis by (simp add: readHashesFrom_def)
qed

lemma foreign_read:
  "readHashesFrom staleTable (newClosableBuf foreignSave) = Inr [(''FORWARD'', [[], ''abcd'', []])]"
  by (simp add: staleTable_def hookedTable_def foreignSave_def parser_evals)

lemmas reload_evals =
  staleTable_def hookedTable_def foreignWorld_def markDirty_def checkChain_def scanChain_def
  setContains_def setAdd_def isDirty_def testOurChains_def

lemma foreign_get:
  "getHashesFromDataplane (staleTable\<lparr>featureDetector := noFeatures, lastReadTime := 0\<rparr>)
     (foreignWorld\<lparr>refreshCalls := 1, nowCalls := 2\<rparr>)
   = (Inr [(''FORWARD'', [[], ''abcd'', []])],
      foreignWorld\<lparr>refreshCalls := 1, nowCalls := 2, saveCalls := 1\<rparr>)"
proof -
  have "readHashesFrom (staleTable\<lparr>featureDetector := noFeatures, lastReadTime := 0\<rparr>)
      (newClosableBuf foreignSave) = Inr [(''FORWARD'', [[], ''abcd'', []])]"
    using readHashesFrom_frame
      [of "staleTable\<lparr>featureDetector := noFeatures, lastReadTime := 0\<rparr>" staleTable]
    by (simp add: foreign_read)
  then show ?thesis
    by (simp add: getHashesFromDataplane_def eval_nat_numeral
        attemptToGetHashesFromDataplane_def foreignWorld_def stillWorld_def quietRun_def Let_def)
qed

lemma foreign_reload:
  "reloadIfNeeded testFingerprint (staleTable, foreignWorld\<lparr>nowCalls := 1\<rparr>) =
     (None,
      staleTable\<lparr>lastReadTime := 0, dirtyInserts := [''FORWARD''],
                 chainToDataplaneHashes := [(''FORWARD'', [[], ''abcd'', []])],
                 inSyncWithDataPlane := True\<rparr>,
      foreignWorld\<lparr>refreshCalls := 1, nowCalls := 2, saveCalls := 1\<rparr>)"
proof -
  have stale: "\<not> inSyncWithDataPlane staleTable"
    by (simp add: staleTable_def)
  let ?w = "foreignWorld\<lparr>nowCalls := 1\<rparr>"
  have t0: "staleTable\<lparr>featureDetector := detections ?w (refreshCalls ?w),
                       lastReadTime := nowReadings ?w (nowCalls ?w)\<rparr>
        = staleTable\<lparr>featureDetector := noFeatures, lastReadTime := 0\<rparr>"
    and w0: "?w\<lparr>refreshCalls := Suc (refreshCalls ?w), nowCalls := Suc (nowCalls ?w)\<rparr>
        = foreignWorld\<lparr>refreshCalls := 1, nowCalls := 2\<rparr>"
    by (simp_all add: foreignWorld_def stillWorld_def)
  have mark: "markDirty testFingerprint [(''FORWARD'', [[], ''abcd'', []])]
        (staleTable\<lparr>featureDetector := noFeatures, lastReadTime := 0\<rparr>)
      = staleTable\<lparr>lastReadTime := 0, dirtyInserts := [''FORWARD''],
                 chainToDataplaneHashes := [(''FORWARD'', [[], ''abcd'', []])],
                 inSyncWithDataPlane := True\<rparr>"
    by (simp add: reload_evals table_evals)
  have get: "getHashesRetrying 3 (staleTable\<lparr>featureDetector := noFeatures, lastReadTime := 0\<rparr>)
       (foreignWorld\<lparr>refreshCalls := 1, nowCalls := 2\<rparr>)
     = (Inr [(''FORWARD'', [[], ''abcd'', []])],
        foreignWorld\<lparr>refreshCalls := 1, nowCalls := 2, saveCalls := 1\<rparr>)"
    using foreign_get by (simp add: getHashesFromDataplane_def)
  have "loadDataplaneState testFingerprint (staleTable, foreignWorld\<lparr>nowCalls := 1\<rparr>) =
     (None,
      staleTable\<lparr>lastReadTime := 0, dirtyInserts := [''FORWARD''],
                 chainToDataplaneHashes := [(''FORWARD'', [[], ''abcd'', []])],
                 inSyncWithDataPlane := True\<rparr>,
      foreignWorld\<lparr>refreshCalls := 1, nowCalls := 2, saveCalls := 1\<rparr>)"
    unfolding loadDataplaneState_cases t0 w0 Let_def get
    by (simp add: mark)
  then show ?thesis
    using stale by (simp add: reloadIfNeeded_def)
qed

lemma foreign_update:
  "applyUpdates testFingerprint
     (staleTable\<lparr>lastReadTime := 0, dirtyInserts := [''FORWARD''],
                 chainToDataplaneHashes := [(''FORWARD'', [[], ''abcd'', []])],
                 inSyncWithDataPlane := True\<rparr>,
      foreignWorld\<lparr>refreshCalls := 1, nowCalls := 2, saveCalls := 1\<rparr>)
   = (None,
      staleTable\<lparr>lastReadTime := 0, dirtyInserts := [],
                 chainToDataplaneHashes := [(''FORWARD'', [''abcd'', [], []])],
                 inSyncWithDataPlane := True\<rparr>,
      foreignWorld\<lparr>refreshCalls := 1, nowCalls := 3, saveCalls := 1, iterCalls := 4,
        restoreLog := [[(''filter'',
          [DeleteRule ''FORWARD'' 2,
           RenderInsert rule1 ''FORWARD'' (commentFrag testTable ''abcd'') noFeatures])]]\<rparr>)"
  by (simp add: reload_evals table_evals minPostWriteInterval_def)

lemma stale_timers: "checkTimers 0 staleTable = staleTable"
  by (simp add: apply_evals reload_evals table_evals)

lemma foreign_Apply:
  "snd (Apply testFingerprint (staleTable, foreignWorld)) =
     (staleTable\<lparr>lastReadTime := 0, dirtyInserts := [],
                 chainToDataplaneHashes := [(''FORWARD'', [''abcd'', [], []])],
                 inSyncWithDataPlane := True\<rparr>,
      foreignWorld\<lparr>refreshCalls := 1, nowCalls := 3, saveCalls := 1, iterCalls := 4,
        restoreLog := [[(''filter'',
          [DeleteRule ''FORWARD'' 2,
           RenderInsert rule1 ''FORWARD'' (commentFrag testTable ''abcd'') noFeatures])]]\<rparr>)"
proof -
  have now: "nowReadings foreignWorld (nowCalls foreignWorld) = 0"
    and w: "foreignWorld\<lparr>nowCalls := Suc (nowCalls foreignWorld)\<rparr> = foreignWorld\<lparr>nowCalls := 1\<rparr>"
    by (simp_all add: foreignWorld_def stillWorld_def)
  have 3: "applyRetrying testFingerprint 10 (staleTable, foreignWorld\<lparr>nowCalls := 1\<rparr>)
      = (None, staleTable\<lparr>lastReadTime := 0, dirtyInserts := [],
                 chainToDataplaneHashes := [(''FORWARD'', [''abcd'', [], []])],
                 inSyncWithDataPlane := True\<rparr>,
      foreignWorld\<lparr>refreshCalls := 1, nowCalls := 3, saveCalls := 1, iterCalls := 4,
        restoreLog := [[(''filter'',
          [DeleteRule ''FORWARD'' 2,
           RenderInsert rule1 ''FORWARD'' (commentFrag testTable ''abcd'') noFeatures])]]\<rparr>)"
  proof -
    have 1: "fst (reloadIfNeeded testFingerprint (staleTable, foreignWorld\<lparr>nowCalls := 1\<rparr>)) = None"
      unfolding foreign_reload by simp
    have 2: "fst (applyUpdates testFingerprint
        (snd (reloadIfNeeded testFingerprint (staleTable, foreignWorld\<lparr>nowCalls := 1\<rparr>)))) = None"
      unfolding foreign_reload snd_conv foreign_update by simp
    show ?thesis
      using applyRetrying_done [OF 1 2, of 10]
      unfolding foreign_reload snd_conv foreign_update .
  qed
  have 4: "fst (applyRetrying testFingerprint 10
      (checkTimers (nowReadings foreignWorld (nowCalls foreignWorld)) staleTable,
       foreignWorld\<lparr>nowCalls := Suc (nowCalls foreignWorld)\<rparr>)) = None"
    unfolding now w stale_timers 3 by simp
  show ?thesis
    using Apply_done [OF 4]
    unfolding now w stale_timers 3 by simp
qed

text \<open>
  \<open>Apply\<close> on the hooked table with its cache invalidated, when the save command shows
  a foreign rule in front of ours: the rule of the table, read back at index 1, is
  deleted at position 2 and inserted again, and the cache then holds our fingerprint
  followed by two empty strings.
\<close>

theorem reload_recomputes_insert_positions_witness:
  "chainToDataplaneHashes
     (fst (snd (reloadIfNeeded testFingerprint (staleTable, foreignWorld\<lparr>nowCalls := 1\<rparr>))))
     = [(''FORWARD'', [[], ''abcd'', []])]
   \<and> dirtyInserts
       (fst (snd (reloadIfNeeded testFingerprint (staleTable, foreignWorld\<lparr>nowCalls := 1\<rparr>))))
     = [''FORWARD'']
   \<and> chainLines ''FORWARD''
       (restoredLines
          (snd (snd (reloadIfNeeded testFingerprint (staleTable, foreignWorld\<lparr>nowCalls := 1\<rparr>))))
          (snd (snd (applyUpdates testFingerprint
             (snd (reloadIfNeeded testFingerprint (staleTable, foreignWorld\<lparr>nowCalls := 1\<rparr>)))))))
     = [DeleteRule ''FORWARD'' 2,
        RenderInsert rule1 ''FORWARD'' (commentFrag testTable ''abcd'') noFeatures]
   \<and> restoreLog (snd (snd (Apply testFingerprint (staleTable, foreignWorld))))
     = [[(''filter'',
          [DeleteRule ''FORWARD'' 2,
           RenderInsert rule1 ''FORWARD'' (commentFrag testTable ''abcd'') noFeatures])]]
   \<and> chainToDataplaneHashes (fst (snd (Apply testFingerprint (staleTable, foreignWorld))))
     = [(''FORWARD'', [''abcd'', [], []])]"
proof -
  let ?w = "foreignWorld\<lparr>nowCalls := 1\<rparr>"
  let ?t1 = "staleTable\<lparr>lastReadTime := 0, dirtyInserts := [''FORWARD''],
                 chainToDataplaneHashes := [(''FORWARD'', [[], ''abcd'', []])],
                 inSyncWithDataPlane := True\<rparr>"
  let ?w1 = "foreignWorld\<lparr>refreshCalls := 1, nowCalls := 2, saveCalls := 1\<rparr>"
  let ?t2 = "staleTable\<lparr>lastReadTime := 0, dirtyInserts := [],
                 chainToDataplaneHashes := [(''FORWARD'', [''abcd'', [], []])],
                 inSyncWithDataPlane := True\<rparr>"
  let ?w2 = "foreignWorld\<lparr>refreshCalls := 1, nowCalls := 3, saveCalls := 1, iterCalls := 4,
        restoreLog := [[(''filter'',
          [DeleteRule ''FORWARD'' 2,
           RenderInsert rule1 ''FORWARD'' (commentFrag testTable ''abcd'') noFeatures])]]\<rparr>"
  have stale: "\<not> inSyncWithDataPlane staleTable"
    and hooked: "''FORWARD'' \<in> fst ` set (chainToDataplaneHashes staleTable)"
    and clean: "\<not> isDirty staleTable ''FORWARD''"
    and foreign: "\<not> ourChainsRegexp staleTable ''FORWARD''"
    and dist: "distinct (dirtyInserts staleTable)"
    by (simp_all add: reload_evals table_evals)
  have reload: "reloadIfNeeded testFingerprint (staleTable, ?w) = (None, ?t1, ?w1)"
    by (rule foreign_reload)
  have update: "applyUpdates testFingerprint (?t1, ?w1) = (None, ?t2, ?w2)"
    by (rule foreign_update)
  have readBack: "elems (map_of (chainToDataplaneHashes ?t1) ''FORWARD'') = [[], ''abcd'', []]"
    by (simp add: elems_def)
  have expected: "specExpectedHashes testFingerprint ?t1 ''FORWARD'' 2 = [''abcd'', [], []]"
    by (simp add: specExpectedHashes_def reload_evals table_evals eval_nat_numeral)
  have rules: "insertedRules ?t1 ''FORWARD'' = [rule1]" "insertMode ?t1 = ''insert''"
    "featureDetector ?t1 = noFeatures" "commentFrag ?t1 = commentFrag testTable"
    by (simp_all add: reload_evals insertedRules_def elems_def testTable_def commentFrag_def
        fun_eq_iff)
  have positions: "filter (\<lambda>i. [[], ''abcd'', []] ! i \<noteq> []) (rev [0..<3]) = [1]"
    by (simp add: eval_nat_numeral)
  have "chainLines ''FORWARD'' (restoredLines ?w1 ?w2)
      = [DeleteRule ''FORWARD'' 2,
         RenderInsert rule1 ''FORWARD'' (commentFrag testTable ''abcd'') noFeatures]"
    using reload_recomputes_insert_positions
      [OF stale reload update hooked clean foreign dist]
    unfolding Let_def readBack
    by (simp add: expected rules positions testFingerprint_def)
  then show ?thesis
    unfolding foreign_reload foreign_update foreign_Apply snd_conv fst_conv
    by simp
qed

end
